theory Spec2Isabelle
  imports Main "HOL-Library.Sublist" "HOL-Library.AList"
begin

section \<open>JavaScript built-ins used by the filter manager\<close>

text \<open>
  Strings are character lists. \<open>split_str sep s\<close> is \<^verbatim>\<open>s.split(sep)\<close> for a
  one-character separator: it cuts at every occurrence of the separator and always
  returns at least one part (\<^verbatim>\<open>"".split(":")\<close> is \<^verbatim>\<open>[""]\<close>).
\<close>

fun split_str :: "char \<Rightarrow> string \<Rightarrow> string list" where
  "split_str sep [] = [[]]"
| "split_str sep (c # cs) =
     (if c = sep then [] # split_str sep cs
      else (case split_str sep cs of
              [] \<Rightarrow> [[c]]
            | part # parts \<Rightarrow> (c # part) # parts))"

text \<open>
  \<^verbatim>\<open>String.prototype.toLowerCase\<close>, on the ASCII letters: characters are bytes here,
  and only \<^verbatim>\<open>A\<close>..\<^verbatim>\<open>Z\<close> are mapped.
\<close>

definition lower_char :: "char \<Rightarrow> char" where
  "lower_char c =
     (let n = (of_char c :: nat) in if 65 \<le> n \<and> n \<le> 90 then char_of (n + 32) else c)"

definition toLowerCase :: "string \<Rightarrow> string" where
  "toLowerCase s = map lower_char s"

text \<open>\<^verbatim>\<open>s.includes(sub)\<close> on strings: \<open>sub\<close> occurs in \<open>s\<close> as a contiguous block.\<close>

fun includes_str :: "string \<Rightarrow> string \<Rightarrow> bool" where
  "includes_str [] sub = (sub = [])"
| "includes_str (c # cs) sub = (prefix sub (c # cs) \<or> includes_str cs sub)"

text \<open>\<^verbatim>\<open>Array.prototype.indexOf\<close>: the first position of an element, or \<open>-1\<close>.\<close>

fun indexOf :: "'a list \<Rightarrow> 'a \<Rightarrow> int" where
  "indexOf [] x = - 1"
| "indexOf (y # ys) x =
     (if y = x then 0 else (let i = indexOf ys x in if i < 0 then - 1 else i + 1))"

text \<open>
  The remainder operator \<^verbatim>\<open>%\<close> on integers: the result takes the sign of the
  dividend. Every use below is guarded by a non-zero divisor.
\<close>

definition js_rem :: "int \<Rightarrow> int \<Rightarrow> int" where
  "js_rem a b = sgn a * (\<bar>a\<bar> mod \<bar>b\<bar>)"

text \<open>
  A JavaScript \<^verbatim>\<open>Set\<close> keeps its elements in insertion order and without duplicates;
  it is a list here, with \<^verbatim>\<open>add\<close> appending a new element and \<^verbatim>\<open>delete\<close> removing it.
\<close>

definition set_add :: "'a \<Rightarrow> 'a list \<Rightarrow> 'a list" where
  "set_add x xs = (if x \<in> set xs then xs else xs @ [x])"

definition set_delete :: "'a \<Rightarrow> 'a list \<Rightarrow> 'a list" where
  "set_delete x xs = removeAll x xs"

text \<open>
  A plain object used as a dictionary is the list of its own properties in insertion
  order. Reading \<^verbatim>\<open>obj[key]\<close> gives the own property when there is one; otherwise
  the property inherited from \<^verbatim>\<open>Object.prototype\<close> when the key is one of its names
  (a function, or the prototype itself: a truthy value that is neither an array nor a
  group), and \<^verbatim>\<open>undefined\<close> for every other key.
\<close>

definition object_prototype_names :: "string list" where
  "object_prototype_names =
     [''constructor'', ''__defineGetter__'', ''__defineSetter__'', ''hasOwnProperty'',
      ''__lookupGetter__'', ''__lookupSetter__'', ''isPrototypeOf'',
      ''propertyIsEnumerable'', ''toString'', ''valueOf'', ''__proto__'',
      ''toLocaleString'']"

datatype 'a property = Own 'a | Inherited | Undefined

definition get_property :: "(string \<times> 'a) list \<Rightarrow> string \<Rightarrow> 'a property" where
  "get_property obj key =
     (case map_of obj key of
        Some v \<Rightarrow> Own v
      | None \<Rightarrow> if key \<in> set object_prototype_names then Inherited else Undefined)"

datatype js_error = TypeError


section \<open>Data model\<close>

text \<open>
  A dataset of the catalog, as the \<^verbatim>\<open>Dataset\<close> type has it: \<open>name\<close> is a string and
  every object has its \<open>hierarchy\<close>, the root-to-leaf list of its category labels. The
  fields the code tests for presence before use are optional; \<open>robot\<close> is a single
  string, an array of strings, or absent.
\<close>

datatype robot_field = RobotAbsent | RobotString string | RobotArray "string list"

record object_ref =
  obj_name :: string
  hierarchy :: "string list"

record dataset =
  path :: string
  name :: string
  scenes :: "string list option"
  robot :: robot_field
  endEffector :: "string option"
  actions :: "string list option"
  objects :: "object_ref list option"

text \<open>
  A hierarchy map is a \<^verbatim>\<open>Map\<close> from label to node, in insertion order; a node holds
  its own \<^verbatim>\<open>children\<close> map and the \<^verbatim>\<open>isLeaf\<close> flag.
\<close>

datatype node = Node (children: "(string \<times> node) list") (isLeaf: bool)

type_synonym hierarchy_map = "(string \<times> node) list"

text \<open>
  A filter group: its title and its values, a set of strings for the group type
  \<^verbatim>\<open>'flat'\<close> and a hierarchy map for the type \<^verbatim>\<open>'hierarchical'\<close>.
\<close>

datatype group_values = Flat "string list" | Hierarchical hierarchy_map

record filter_group =
  title :: string
  group_values :: group_values

text \<open>The \<^verbatim>\<open>values\<close> containers that \<^verbatim>\<open>buildFilterGroups\<close> fills, one per group.\<close>

record facet_values =
  scene_values :: "string list"
  robot_values :: "string list"
  end_values :: "string list"
  action_values :: "string list"
  object_values :: hierarchy_map

text \<open>
  A Filter Finder match: the matching option element (its position among the option
  elements of the panel, in document order) and its label text.
\<close>

record finder_match =
  element :: nat
  text_of :: string

text \<open>
  The state of a \<^verbatim>\<open>FilterManager\<close>, with the part of the browser it acts on: the
  handles of the timeouts it has set that have neither fired nor been cleared, the
  handle the next \<^verbatim>\<open>setTimeout\<close> will return (handles are positive and never
  reused), and the number of \<^verbatim>\<open>filtersChanged\<close> events dispatched so far.
\<close>

record filter_manager =
  datasets :: "dataset list"
  filterGroups :: "(string \<times> filter_group) list"
  selectedFilters :: "string list"
  pendingFilterUpdate :: "nat option"
  filterFinderMatches :: "finder_match list"
  filterFinderCurrentIndex :: int
  timeouts :: "nat list"
  next_handle :: nat
  filtersChanged :: nat

definition FilterManager :: "dataset list \<Rightarrow> filter_manager" where
  "FilterManager ds =
     \<lparr> datasets = ds, filterGroups = [], selectedFilters = [],
       pendingFilterUpdate = None, filterFinderMatches = [],
       filterFinderCurrentIndex = - 1, timeouts = [], next_handle = 1,
       filtersChanged = 0 \<rparr>"


section \<open>Hierarchy tree\<close>

text \<open>
  The loop of \<^verbatim>\<open>addToHierarchy\<close> over the levels. At each level the node is created
  when the current map has no entry for it, with \<^verbatim>\<open>isLeaf\<close> telling whether the
  level is the last one; an entry that exists is kept as it is. The loop goes on in
  the node's \<^verbatim>\<open>children\<close>.
\<close>

fun addLevels :: "string list \<Rightarrow> hierarchy_map \<Rightarrow> hierarchy_map" where
  "addLevels [] current = current"
| "addLevels (level # rest) current =
     (case map_of current level of
        None \<Rightarrow> current @ [(level, Node (addLevels rest []) (rest = []))]
      | Some node \<Rightarrow>
          AList.update level (Node (addLevels rest (children node)) (isLeaf node)) current)"

definition addToHierarchy :: "hierarchy_map \<Rightarrow> string list \<Rightarrow> hierarchy_map" where
  "addToHierarchy hierarchyMap levels =
     (if levels = [] then hierarchyMap else addLevels levels hierarchyMap)"

text \<open>A sequence of insertions, one path after the other.\<close>

definition insertPaths :: "string list list \<Rightarrow> hierarchy_map \<Rightarrow> hierarchy_map" where
  "insertPaths ps hierarchyMap = fold (\<lambda>levels m. addToHierarchy m levels) ps hierarchyMap"

text \<open>\<^verbatim>\<open>countHierarchyItems\<close>: a node with children counts what they count, a node
  without children counts one.\<close>

fun countHierarchyItems :: "hierarchy_map \<Rightarrow> nat" where
  "countHierarchyItems [] = 0"
| "countHierarchyItems ((label, Node cs lf) # rest) =
     (if cs \<noteq> [] then countHierarchyItems cs else 1) + countHierarchyItems rest"

text \<open>
  \<^verbatim>\<open>findHierarchyNode\<close>: the loop over the parts of the path. The test for the last
  part compares \<^verbatim>\<open>parts.indexOf(part)\<close> with the last index.
\<close>

fun findLoop :: "string list \<Rightarrow> string list \<Rightarrow> hierarchy_map \<Rightarrow> node option" where
  "findLoop parts [] current = None"
| "findLoop parts (part # rest) current =
     (case map_of current part of
        None \<Rightarrow> None
      | Some node \<Rightarrow>
          if indexOf parts part = int (length parts) - 1 then Some node
          else findLoop parts rest (children node))"

definition findHierarchyNode :: "hierarchy_map \<Rightarrow> string \<Rightarrow> node option" where
  "findHierarchyNode hierarchyMap p =
     (let parts = split_str CHR ''>'' p in findLoop parts parts hierarchyMap)"

text \<open>
  The node reached by descending through the labels of a path in order, as the
  specification words it; absent when a label on the way is missing.
\<close>

fun descend :: "hierarchy_map \<Rightarrow> string list \<Rightarrow> node option" where
  "descend m [] = None"
| "descend m [label] = map_of m label"
| "descend m (label # rest) =
     (case map_of m label of None \<Rightarrow> None | Some node \<Rightarrow> descend (children node) rest)"

text \<open>Views of a hierarchy map that do not depend on the insertion order: the paths
  of all nodes, the paths of the nodes without children, and every node's path with
  its \<^verbatim>\<open>isLeaf\<close> flag.\<close>

fun all_paths :: "hierarchy_map \<Rightarrow> string list list" where
  "all_paths [] = []"
| "all_paths ((label, Node cs lf) # rest) =
     [label] # map ((#) label) (all_paths cs) @ all_paths rest"

fun childless_paths :: "hierarchy_map \<Rightarrow> string list list" where
  "childless_paths [] = []"
| "childless_paths ((label, Node cs lf) # rest) =
     (if cs \<noteq> [] then map ((#) label) (childless_paths cs) else [[label]])
       @ childless_paths rest"

fun node_flags :: "hierarchy_map \<Rightarrow> (string list \<times> bool) list" where
  "node_flags [] = []"
| "node_flags ((label, Node cs lf) # rest) =
     ([label], lf) # map (\<lambda>(p, b). (label # p, b)) (node_flags cs) @ node_flags rest"

fun distinct_labels :: "hierarchy_map \<Rightarrow> bool" where
  "distinct_labels [] = True"
| "distinct_labels ((label, Node cs lf) # rest) =
     (label \<notin> fst ` set rest \<and> distinct_labels cs \<and> distinct_labels rest)"


section \<open>Facet index\<close>

text \<open>
  The body of the loop of \<^verbatim>\<open>buildFilterGroups\<close> for one dataset. A field is used
  when it is truthy: an array always is, a string when it is not empty.
\<close>

definition collectDataset :: "dataset \<Rightarrow> facet_values \<Rightarrow> facet_values" where
  "collectDataset ds g =
     (let g1 = (case scenes ds of
                  None \<Rightarrow> g
                | Some ss \<Rightarrow> g\<lparr>scene_values := fold set_add ss (scene_values g)\<rparr>);
          g2 = (case robot ds of
                  RobotAbsent \<Rightarrow> g1
                | RobotString r \<Rightarrow>
                    if r = [] then g1
                    else g1\<lparr>robot_values := fold set_add [r] (robot_values g1)\<rparr>
                | RobotArray rs \<Rightarrow> g1\<lparr>robot_values := fold set_add rs (robot_values g1)\<rparr>);
          g3 = (case endEffector ds of
                  None \<Rightarrow> g2
                | Some e \<Rightarrow>
                    if e = [] then g2 else g2\<lparr>end_values := set_add e (end_values g2)\<rparr>);
          g4 = (case actions ds of
                  None \<Rightarrow> g3
                | Some as \<Rightarrow> g3\<lparr>action_values := fold set_add as (action_values g3)\<rparr>)
      in (case objects ds of
            None \<Rightarrow> g4
          | Some os \<Rightarrow>
              g4\<lparr>object_values :=
                   fold (\<lambda>obj m. addToHierarchy m (hierarchy obj)) os (object_values g4)\<rparr>))"

definition collectValues :: "dataset list \<Rightarrow> facet_values" where
  "collectValues dss =
     fold collectDataset dss
       \<lparr> scene_values = [], robot_values = [], end_values = [], action_values = [],
         object_values = [] \<rparr>"

definition buildFilterGroups :: "dataset list \<Rightarrow> (string \<times> filter_group) list" where
  "buildFilterGroups dss =
     (let g = collectValues dss in
      [ (''scene'', \<lparr>title = ''scene'', group_values = Flat (scene_values g)\<rparr>),
        (''robot'', \<lparr>title = ''robot'', group_values = Flat (robot_values g)\<rparr>),
        (''end'', \<lparr>title = ''end effector'', group_values = Flat (end_values g)\<rparr>),
        (''action'', \<lparr>title = ''action'', group_values = Flat (action_values g)\<rparr>),
        (''object'', \<lparr>title = ''operation object'',
                       group_values = Hierarchical (object_values g)\<rparr>) ])"


section \<open>Selection state and the scheduled recomputation\<close>

definition clearTimeout :: "nat \<Rightarrow> filter_manager \<Rightarrow> filter_manager" where
  "clearTimeout h st = st\<lparr>timeouts := removeAll h (timeouts st)\<rparr>"

definition setTimeout :: "filter_manager \<Rightarrow> nat \<times> filter_manager" where
  "setTimeout st =
     (next_handle st,
      st\<lparr>timeouts := timeouts st @ [next_handle st], next_handle := Suc (next_handle st)\<rparr>)"

text \<open>
  \<^verbatim>\<open>scheduleFilterUpdate\<close>: a pending handle is cleared when it is truthy (not
  \<^verbatim>\<open>null\<close> and not \<open>0\<close>), then a new timeout is set and stored.
\<close>

definition scheduleFilterUpdate :: "filter_manager \<Rightarrow> filter_manager" where
  "scheduleFilterUpdate st =
     (let st1 = (case pendingFilterUpdate st of
                   None \<Rightarrow> st
                 | Some h \<Rightarrow> if h \<noteq> 0 then clearTimeout h st else st);
          (h', st2) = setTimeout st1
      in st2\<lparr>pendingFilterUpdate := Some h'\<rparr>)"

text \<open>The callback of the timeout: it dispatches \<^verbatim>\<open>filtersChanged\<close> and empties the
  pending slot. A handle that is not scheduled any more does not fire.\<close>

definition timeoutFires :: "nat \<Rightarrow> filter_manager \<Rightarrow> filter_manager" where
  "timeoutFires h st =
     (if h \<in> set (timeouts st)
      then st\<lparr>timeouts := removeAll h (timeouts st),
              filtersChanged := Suc (filtersChanged st),
              pendingFilterUpdate := None\<rparr>
      else st)"

definition filterId :: "string \<Rightarrow> string \<Rightarrow> string" where
  "filterId filterKey filterValue = filterKey @ '':'' @ filterValue"

definition toggleFilterSelection :: "string \<Rightarrow> string \<Rightarrow> filter_manager \<Rightarrow> filter_manager" where
  "toggleFilterSelection filterKey filterValue st =
     (let fid = filterId filterKey filterValue;
          st1 = (if fid \<in> set (selectedFilters st)
                 then st\<lparr>selectedFilters := set_delete fid (selectedFilters st)\<rparr>
                 else st\<lparr>selectedFilters := set_add fid (selectedFilters st)\<rparr>)
      in scheduleFilterUpdate st1)"

definition removeFilterTagById :: "string \<Rightarrow> filter_manager \<Rightarrow> filter_manager" where
  "removeFilterTagById fid st =
     scheduleFilterUpdate (st\<lparr>selectedFilters := set_delete fid (selectedFilters st)\<rparr>)"

text \<open>\<^verbatim>\<open>selectAllInHierarchy\<close>, on the selection set: every node marked as a leaf is
  added under its own label, and the children of every node are visited.\<close>

fun selectAllInHierarchy :: "string \<Rightarrow> hierarchy_map \<Rightarrow> string list \<Rightarrow> string list" where
  "selectAllInHierarchy groupKey [] sel = sel"
| "selectAllInHierarchy groupKey ((label, Node cs lf) # rest) sel =
     selectAllInHierarchy groupKey rest
       (let sel1 = (if lf \<and> filterId groupKey label \<notin> set sel
                    then set_add (filterId groupKey label) sel else sel)
        in if cs \<noteq> [] then selectAllInHierarchy groupKey cs sel1 else sel1)"

definition selectAllInGroup :: "string \<Rightarrow> filter_manager \<Rightarrow> filter_manager" where
  "selectAllInGroup groupKey st =
     (case get_property (filterGroups st) groupKey of
        Undefined \<Rightarrow> st
      | Inherited \<Rightarrow> scheduleFilterUpdate st
      | Own grp \<Rightarrow>
          scheduleFilterUpdate
            (st\<lparr>selectedFilters :=
                  (case group_values grp of
                     Flat vs \<Rightarrow>
                       fold (\<lambda>v sel. if filterId groupKey v \<notin> set sel
                                      then set_add (filterId groupKey v) sel else sel)
                         vs (selectedFilters st)
                   | Hierarchical m \<Rightarrow>
                       selectAllInHierarchy groupKey m (selectedFilters st))\<rparr>))"

text \<open>
  The destructuring \<^verbatim>\<open>const [key, value] = filterId.split(':')\<close>: the first two
  parts; \<open>value\<close> is \<^verbatim>\<open>undefined\<close> when there is one part only.
\<close>

definition parseFilterId :: "string \<Rightarrow> string \<times> string option" where
  "parseFilterId fid =
     (case split_str CHR '':'' fid of
        [] \<Rightarrow> ([], None)
      | [key] \<Rightarrow> (key, None)
      | key # v # _ \<Rightarrow> (key, Some v))"

definition clearGroup :: "string \<Rightarrow> filter_manager \<Rightarrow> filter_manager" where
  "clearGroup groupKey st =
     (let filtersToRemove =
            filter (\<lambda>fid. fst (parseFilterId fid) = groupKey) (selectedFilters st)
      in scheduleFilterUpdate
           (st\<lparr>selectedFilters := fold set_delete filtersToRemove (selectedFilters st)\<rparr>))"

text \<open>
  \<^verbatim>\<open>selectLeafNodesRecursive\<close> and \<^verbatim>\<open>clearLeafNodesRecursive\<close>, on the selection set:
  a node counts as a leaf when it is marked as one or has no children.
\<close>

fun selectLeafNodesRecursive :: "string \<Rightarrow> hierarchy_map \<Rightarrow> string list \<Rightarrow> string list" where
  "selectLeafNodesRecursive groupKey [] sel = sel"
| "selectLeafNodesRecursive groupKey ((label, Node cs lf) # rest) sel =
     selectLeafNodesRecursive groupKey rest
       (let sel1 = (if (lf \<or> cs = []) \<and> filterId groupKey label \<notin> set sel
                    then set_add (filterId groupKey label) sel else sel)
        in if cs \<noteq> [] then selectLeafNodesRecursive groupKey cs sel1 else sel1)"

fun clearLeafNodesRecursive :: "string \<Rightarrow> hierarchy_map \<Rightarrow> string list \<Rightarrow> string list" where
  "clearLeafNodesRecursive groupKey [] sel = sel"
| "clearLeafNodesRecursive groupKey ((label, Node cs lf) # rest) sel =
     clearLeafNodesRecursive groupKey rest
       (let sel1 = (if (lf \<or> cs = []) \<and> filterId groupKey label \<in> set sel
                    then set_delete (filterId groupKey label) sel else sel)
        in if cs \<noteq> [] then clearLeafNodesRecursive groupKey cs sel1 else sel1)"

text \<open>
  \<^verbatim>\<open>selectAllChildrenInHierarchy\<close> and \<^verbatim>\<open>clearAllChildrenInHierarchy\<close>: nothing happens
  unless the group is a hierarchical one and \<^verbatim>\<open>findHierarchyNode\<close> finds the path.
\<close>

definition selectAllChildrenInHierarchy ::
  "string \<Rightarrow> string \<Rightarrow> filter_manager \<Rightarrow> filter_manager" where
  "selectAllChildrenInHierarchy groupKey p st =
     (case get_property (filterGroups st) groupKey of
        Own grp \<Rightarrow>
          (case group_values grp of
             Flat _ \<Rightarrow> st
           | Hierarchical m \<Rightarrow>
               (case findHierarchyNode m p of
                  None \<Rightarrow> st
                | Some node \<Rightarrow>
                    scheduleFilterUpdate
                      (st\<lparr>selectedFilters :=
                            selectLeafNodesRecursive groupKey (children node)
                              (selectedFilters st)\<rparr>)))
      | Inherited \<Rightarrow> st
      | Undefined \<Rightarrow> st)"

definition clearAllChildrenInHierarchy ::
  "string \<Rightarrow> string \<Rightarrow> filter_manager \<Rightarrow> filter_manager" where
  "clearAllChildrenInHierarchy groupKey p st =
     (case get_property (filterGroups st) groupKey of
        Own grp \<Rightarrow>
          (case group_values grp of
             Flat _ \<Rightarrow> st
           | Hierarchical m \<Rightarrow>
               (case findHierarchyNode m p of
                  None \<Rightarrow> st
                | Some node \<Rightarrow>
                    scheduleFilterUpdate
                      (st\<lparr>selectedFilters :=
                            clearLeafNodesRecursive groupKey (children node)
                              (selectedFilters st)\<rparr>)))
      | Inherited \<Rightarrow> st
      | Undefined \<Rightarrow> st)"

text \<open>\<^verbatim>\<open>resetFilters\<close>: the pending timeout is cleared and the slot emptied, the
  selection is cleared, and a new update is scheduled.\<close>

definition cancelPending :: "filter_manager \<Rightarrow> filter_manager" where
  "cancelPending st =
     (case pendingFilterUpdate st of
        None \<Rightarrow> st
      | Some h \<Rightarrow>
          if h \<noteq> 0 then (clearTimeout h st)\<lparr>pendingFilterUpdate := None\<rparr> else st)"

definition resetFilters :: "filter_manager \<Rightarrow> filter_manager" where
  "resetFilters st =
     (let st1 = cancelPending st;
          st2 = st1\<lparr>selectedFilters := []\<rparr>
      in scheduleFilterUpdate st2)"


section \<open>Filter evaluator and affected counts\<close>

text \<open>
  The first loop of \<^verbatim>\<open>applyFilters\<close>: the selected values, grouped by key in a
  plain object. A value is what \<open>parseFilterId\<close> gives, so it may be \<^verbatim>\<open>undefined\<close>.
  For a key that names a property of the object prototype, \<^verbatim>\<open>filters[key]\<close> is that
  property, which has no \<^verbatim>\<open>push\<close>: the call raises a \<^verbatim>\<open>TypeError\<close>.
\<close>

definition pushFilter ::
  "(string \<times> string option list) list \<Rightarrow> string \<Rightarrow>
     js_error + (string \<times> string option list) list" where
  "pushFilter filters fid =
     (case parseFilterId fid of
        (key, v) \<Rightarrow>
          (case get_property filters key of
             Undefined \<Rightarrow> Inr (filters @ [(key, [v])])
           | Own vs \<Rightarrow> Inr (AList.update key (vs @ [v]) filters)
           | Inherited \<Rightarrow> Inl TypeError))"

fun collectLoop ::
  "(string \<times> string option list) list \<Rightarrow> string list \<Rightarrow>
     js_error + (string \<times> string option list) list" where
  "collectLoop filters [] = Inr filters"
| "collectLoop filters (fid # rest) =
     (case pushFilter filters fid of
        Inl e \<Rightarrow> Inl e
      | Inr filters' \<Rightarrow> collectLoop filters' rest)"

definition collectFilters ::
  "string list \<Rightarrow> js_error + (string \<times> string option list) list" where
  "collectFilters sel = collectLoop [] sel"

text \<open>The test of one key of the object against a dataset; an unknown key matches
  nothing. An absent field is \<^verbatim>\<open>undefined\<close>, which is \<open>None\<close> among the values.\<close>

definition facetMatch :: "string \<Rightarrow> string option list \<Rightarrow> dataset \<Rightarrow> bool" where
  "facetMatch key vs ds =
     (if key = ''scene'' then
        (case scenes ds of None \<Rightarrow> False | Some ss \<Rightarrow> list_ex (\<lambda>v. Some v \<in> set vs) ss)
      else if key = ''robot'' then
        (let robots = (case robot ds of
                         RobotArray rs \<Rightarrow> map Some rs
                       | RobotString r \<Rightarrow> [Some r]
                       | RobotAbsent \<Rightarrow> [None])
         in list_ex (\<lambda>r. r \<in> set vs) robots)
      else if key = ''end'' then endEffector ds \<in> set vs
      else if key = ''action'' then
        (case actions ds of None \<Rightarrow> False | Some as \<Rightarrow> list_ex (\<lambda>a. Some a \<in> set vs) as)
      else if key = ''object'' then
        (case objects ds of
           None \<Rightarrow> False
         | Some os \<Rightarrow> list_ex (\<lambda>obj. list_ex (\<lambda>h. Some h \<in> set vs) (hierarchy obj)) os)
      else False)"

text \<open>
  \<^verbatim>\<open>applyFilters\<close>. The entries of the object are tested one after the other and
  the first that fails rejects the dataset, so the order of the entries does not
  matter for the result.
\<close>

definition applyFilters :: "filter_manager \<Rightarrow> string \<Rightarrow> js_error + dataset list" where
  "applyFilters st searchQuery =
     (case collectFilters (selectedFilters st) of
        Inl e \<Rightarrow> Inl e
      | Inr filters \<Rightarrow>
          Inr (filter (\<lambda>ds.
                 \<not> (searchQuery \<noteq> [] \<and>
                    \<not> includes_str (toLowerCase (name ds)) (toLowerCase searchQuery)) \<and>
                 list_all (\<lambda>(key, vs). facetMatch key vs ds) filters)
               (datasets st)))"

text \<open>The test of \<^verbatim>\<open>calculateAffectedCount\<close> for one dataset, and the count.\<close>

definition affected :: "string \<Rightarrow> string \<Rightarrow> dataset \<Rightarrow> bool" where
  "affected filterKey filterValue ds =
     (if filterKey = ''scene'' then
        (case scenes ds of None \<Rightarrow> False | Some ss \<Rightarrow> filterValue \<in> set ss)
      else if filterKey = ''robot'' then
        (let robots = (case robot ds of
                         RobotArray rs \<Rightarrow> map Some rs
                       | RobotString r \<Rightarrow> [Some r]
                       | RobotAbsent \<Rightarrow> [None])
         in Some filterValue \<in> set robots)
      else if filterKey = ''end'' then endEffector ds = Some filterValue
      else if filterKey = ''action'' then
        (case actions ds of None \<Rightarrow> False | Some as \<Rightarrow> filterValue \<in> set as)
      else if filterKey = ''object'' then
        (case objects ds of
           None \<Rightarrow> False
         | Some os \<Rightarrow> list_ex (\<lambda>obj. filterValue \<in> set (hierarchy obj)) os)
      else False)"

definition calculateAffectedCount :: "filter_manager \<Rightarrow> string \<Rightarrow> string \<Rightarrow> nat" where
  "calculateAffectedCount st filterKey filterValue =
     fold (\<lambda>ds count. if affected filterKey filterValue ds then count + 1 else count)
       (datasets st) 0"


section \<open>Filter Finder\<close>

definition clearFilterSearch :: "filter_manager \<Rightarrow> filter_manager" where
  "clearFilterSearch st =
     st\<lparr>filterFinderMatches := [], filterFinderCurrentIndex := - 1\<rparr>"

text \<open>
  \<^verbatim>\<open>searchFilterOptions\<close>. The page is given as the option elements of the options
  panel in document order, each with the trimmed text of its label element when it has
  one; it is \<open>None\<close> when the panel does not exist.
\<close>

definition searchFilterOptions ::
  "string \<Rightarrow> string option list option \<Rightarrow> filter_manager \<Rightarrow> filter_manager" where
  "searchFilterOptions query filterContent st =
     (let st0 = clearFilterSearch st in
      case filterContent of
        None \<Rightarrow> st0
      | Some allOptions \<Rightarrow>
          if query = [] then st0\<lparr>filterFinderMatches := []\<rparr>
          else
            (let queryLower = toLowerCase query;
                 matches =
                   concat (map (\<lambda>(i, label).
                       case label of
                         None \<Rightarrow> []
                       | Some t \<Rightarrow>
                           if includes_str (toLowerCase t) queryLower
                           then [\<lparr>element = i, text_of = t\<rparr>] else [])
                     (enumerate 0 allOptions));
                 st1 = st0\<lparr>filterFinderMatches := matches\<rparr>
             in if length matches > 0 then st1\<lparr>filterFinderCurrentIndex := 0\<rparr> else st1))"

text \<open>\<^verbatim>\<open>navigateFilterMatch\<close>: nothing without matches; otherwise the index moves
  one step and wraps around. Any direction other than \<^verbatim>\<open>'next'\<close> goes back.\<close>

definition navigateFilterMatch :: "string \<Rightarrow> filter_manager \<Rightarrow> filter_manager" where
  "navigateFilterMatch direction st =
     (if length (filterFinderMatches st) = 0 then st
      else if direction = ''next'' then
        st\<lparr>filterFinderCurrentIndex :=
             js_rem (filterFinderCurrentIndex st + 1) (int (length (filterFinderMatches st)))\<rparr>
      else
        st\<lparr>filterFinderCurrentIndex :=
             js_rem (filterFinderCurrentIndex st - 1 + int (length (filterFinderMatches st)))
               (int (length (filterFinderMatches st)))\<rparr>)"


text \<open>
  \<^verbatim>\<open>selectCategory\<close>, as far as the state goes: the search is cleared and, when the
  search box is not empty, run again on the options of the newly rendered panel. The
  box is given by its trimmed value, which is empty also when there is no box.
\<close>

definition selectCategory ::
  "string \<Rightarrow> string \<Rightarrow> string option list option \<Rightarrow> filter_manager \<Rightarrow> filter_manager" where
  "selectCategory categoryKey searchInput filterContent st =
     (let st1 = clearFilterSearch st in
      if searchInput \<noteq> [] then searchFilterOptions searchInput filterContent st1 else st1)"


section \<open>Events\<close>

text \<open>
  What can happen to a filter manager: a call of one of its methods from the page, or
  one of its timeouts firing. The calls that read the page carry what they read: the
  trimmed value of the search box and the options of the panel. The method
  \<^verbatim>\<open>buildFilterGroups\<close> stores the groups and, through \<^verbatim>\<open>renderFilterGroups\<close>, selects
  the category \<^verbatim>\<open>scene\<close>.
\<close>

datatype event =
    BuildFilterGroups string "string option list option"
  | SelectCategory string string "string option list option"
  | ToggleFilterSelection string string
  | RemoveFilterTagById string
  | SelectAllInGroup string
  | ClearGroup string
  | SelectAllChildrenInHierarchy string string
  | ClearAllChildrenInHierarchy string string
  | ResetFilters
  | TimeoutFires nat
  | SearchFilterOptions string "string option list option"
  | ClearFilterSearch
  | NavigateFilterMatch string

fun step :: "event \<Rightarrow> filter_manager \<Rightarrow> filter_manager" where
  "step (BuildFilterGroups box page) st =
     selectCategory ''scene'' box page (st\<lparr>filterGroups := buildFilterGroups (datasets st)\<rparr>)"
| "step (SelectCategory key box page) st = selectCategory key box page st"
| "step (ToggleFilterSelection k v) st = toggleFilterSelection k v st"
| "step (RemoveFilterTagById fid) st = removeFilterTagById fid st"
| "step (SelectAllInGroup g) st = selectAllInGroup g st"
| "step (ClearGroup g) st = clearGroup g st"
| "step (SelectAllChildrenInHierarchy g p) st = selectAllChildrenInHierarchy g p st"
| "step (ClearAllChildrenInHierarchy g p) st = clearAllChildrenInHierarchy g p st"
| "step ResetFilters st = resetFilters st"
| "step (TimeoutFires h) st = timeoutFires h st"
| "step (SearchFilterOptions q page) st = searchFilterOptions q page st"
| "step ClearFilterSearch st = clearFilterSearch st"
| "step (NavigateFilterMatch d) st = navigateFilterMatch d st"

definition run :: "event list \<Rightarrow> filter_manager \<Rightarrow> filter_manager" where
  "run evs st = fold step evs st"


section \<open>Invariants, views and example inputs\<close>

text \<open>The current index of a match list that is not empty is a position in it.\<close>

definition finder_ok :: "filter_manager \<Rightarrow> bool" where
  "finder_ok st \<longleftrightarrow>
     (filterFinderMatches st \<noteq> [] \<longrightarrow>
        0 \<le> filterFinderCurrentIndex st \<and>
        filterFinderCurrentIndex st < int (length (filterFinderMatches st)))"

text \<open>
  The timeouts of the manager are exactly the one in the pending slot, if any, and its
  handle is a positive one that has been given out.
\<close>

definition timer_ok :: "filter_manager \<Rightarrow> bool" where
  "timer_ok st \<longleftrightarrow>
     (case pendingFilterUpdate st of
        None \<Rightarrow> timeouts st = []
      | Some h \<Rightarrow> timeouts st = [h] \<and> 0 < h \<and> h < next_handle st) \<and>
     0 < next_handle st"

text \<open>No scheduled timeout has a handle below \<open>b\<close>, and none will get one.\<close>

definition handles_from :: "nat \<Rightarrow> filter_manager \<Rightarrow> bool" where
  "handles_from b st \<longleftrightarrow> list_all (\<lambda>h. b \<le> h) (timeouts st) \<and> b \<le> next_handle st"

text \<open>The labels that \<^verbatim>\<open>selectAllInHierarchy\<close> selects, in the order of its traversal,
  and the loop that adds the values of a group to the selection.\<close>

fun leaf_labels :: "hierarchy_map \<Rightarrow> string list" where
  "leaf_labels [] = []"
| "leaf_labels ((label, Node cs lf) # rest) =
     (if lf then [label] else []) @ leaf_labels cs @ leaf_labels rest"

definition addAll :: "string \<Rightarrow> string list \<Rightarrow> string list \<Rightarrow> string list" where
  "addAll groupKey vs sel =
     fold (\<lambda>v sel. if filterId groupKey v \<notin> set sel
                    then set_add (filterId groupKey v) sel else sel) vs sel"

text \<open>
  The filter of the specification, in its words: a record passes when the query is
  empty or its lower-cased name contains the lower-cased query, and when for every facet
  with a selected value it matches one of the selected values of that facet. The
  selection is a list of pairs of a facet key and a value; \<open>selection_ids\<close> gives the
  identifiers that stand for them in \<^verbatim>\<open>selectedFilters\<close>.
\<close>

definition matches_value :: "string \<Rightarrow> string \<Rightarrow> dataset \<Rightarrow> bool" where
  "matches_value f v ds =
     (if f = ''scene'' then (case scenes ds of None \<Rightarrow> False | Some ss \<Rightarrow> v \<in> set ss)
      else if f = ''action'' then (case actions ds of None \<Rightarrow> False | Some as \<Rightarrow> v \<in> set as)
      else if f = ''robot'' then
        (case robot ds of
           RobotAbsent \<Rightarrow> False
         | RobotString r \<Rightarrow> v \<in> set [r]
         | RobotArray rs \<Rightarrow> v \<in> set rs)
      else if f = ''end'' then endEffector ds = Some v
      else if f = ''object'' then
        (case objects ds of
           None \<Rightarrow> False
         | Some os \<Rightarrow> (\<exists>obj \<in> set os. v \<in> set (hierarchy obj)))
      else False)"

definition passes :: "(string \<times> string) list \<Rightarrow> string \<Rightarrow> dataset \<Rightarrow> bool" where
  "passes selection query ds \<longleftrightarrow>
     (query = [] \<or> sublist (toLowerCase query) (toLowerCase (name ds))) \<and>
     (\<forall>f \<in> fst ` set selection. \<exists>v \<in> snd ` {e \<in> set selection. fst e = f}. matches_value f v ds)"

definition selection_ids :: "(string \<times> string) list \<Rightarrow> string list" where
  "selection_ids selection = map (\<lambda>(f, v). filterId f v) selection"

text \<open>The values collected under a key of the \<^verbatim>\<open>filters\<close> object.\<close>

definition values_of :: "(string \<times> 'a list) list \<Rightarrow> string \<Rightarrow> 'a list" where
  "values_of filters key = (case map_of filters key of None \<Rightarrow> [] | Some vs \<Rightarrow> vs)"

text \<open>What one dataset contributes to each group of \<^verbatim>\<open>buildFilterGroups\<close>.\<close>

definition scenes_of :: "dataset \<Rightarrow> string set" where
  "scenes_of ds = (case scenes ds of None \<Rightarrow> {} | Some ss \<Rightarrow> set ss)"

definition robots_of :: "dataset \<Rightarrow> string set" where
  "robots_of ds =
     (case robot ds of
        RobotAbsent \<Rightarrow> {}
      | RobotString r \<Rightarrow> if r = [] then {} else {r}
      | RobotArray rs \<Rightarrow> set rs)"

definition ends_of :: "dataset \<Rightarrow> string set" where
  "ends_of ds = (case endEffector ds of None \<Rightarrow> {} | Some e \<Rightarrow> if e = [] then {} else {e})"

definition actions_of :: "dataset \<Rightarrow> string set" where
  "actions_of ds = (case actions ds of None \<Rightarrow> {} | Some as \<Rightarrow> set as)"

definition hierarchies_of :: "dataset \<Rightarrow> string list list" where
  "hierarchies_of ds = (case objects ds of None \<Rightarrow> [] | Some os \<Rightarrow> map hierarchy os)"

text \<open>The hierarchy map of the group \<^verbatim>\<open>object\<close>.\<close>

definition object_tree :: "(string \<times> filter_group) list \<Rightarrow> hierarchy_map" where
  "object_tree groups =
     (case map_of groups ''object'' of
        Some grp \<Rightarrow> (case group_values grp of Hierarchical m \<Rightarrow> m | Flat _ \<Rightarrow> [])
      | None \<Rightarrow> [])"

text \<open>Example inputs: a dataset with the given name, scenes and object hierarchies,
  and a search in a panel of four options followed by one step.\<close>

definition example_dataset :: "string \<Rightarrow> string list \<Rightarrow> string list list \<Rightarrow> dataset" where
  "example_dataset n ss hs =
     \<lparr> path = n, name = n, scenes = Some ss, robot = RobotAbsent, endEffector = None,
       actions = None,
       objects = Some (map (\<lambda>h. \<lparr>obj_name = [], hierarchy = h\<rparr>) hs) \<rparr>"

definition finder_events :: "event list" where
  "finder_events =
     [SearchFilterOptions ''ham'' (Some [Some ''Hammer'', None, Some ''saw'', Some ''hammock'']),
      NavigateFilterMatch ''next'']"


section \<open>Cyclic navigation of the Filter Finder\<close>

lemma js_rem_nonneg: "0 \<le> a \<Longrightarrow> 0 < b \<Longrightarrow> js_rem a b = a mod b"
  by (cases "a = 0") (simp_all add: js_rem_def)

lemma navigate_matches [simp]:
  "filterFinderMatches (navigateFilterMatch d st) = filterFinderMatches st"
  by (simp add: navigateFilterMatch_def)

lemma navigate_iter_matches [simp]:
  "filterFinderMatches ((navigateFilterMatch d ^^ k) st) = filterFinderMatches st"
  by (induction k) simp_all

lemma navigate_next_index:
  assumes "filterFinderMatches st \<noteq> []" "0 \<le> filterFinderCurrentIndex st"
  shows "filterFinderCurrentIndex (navigateFilterMatch ''next'' st) =
           (filterFinderCurrentIndex st + 1) mod int (length (filterFinderMatches st))"
  using assms by (simp add: navigateFilterMatch_def js_rem_nonneg)

lemma navigate_prev_index:
  assumes "filterFinderMatches st \<noteq> []" "0 \<le> filterFinderCurrentIndex st"
  shows "filterFinderCurrentIndex (navigateFilterMatch ''prev'' st) =
           (filterFinderCurrentIndex st - 1) mod int (length (filterFinderMatches st))"
proof -
  let ?n = "int (length (filterFinderMatches st))"
  have n: "0 < ?n" using assms by simp
  then have "0 \<le> filterFinderCurrentIndex st - 1 + ?n" using assms(2) by linarith
  then have "js_rem (filterFinderCurrentIndex st - 1 + ?n) ?n = (filterFinderCurrentIndex st - 1 + ?n) mod ?n"
    using n by (rule js_rem_nonneg)
  then show ?thesis using assms by (simp add: navigateFilterMatch_def)
qed

lemma navigate_next_iter:
  assumes "filterFinderMatches st \<noteq> []" "0 \<le> filterFinderCurrentIndex st"
    "filterFinderCurrentIndex st < int (length (filterFinderMatches st))"
  shows "filterFinderCurrentIndex ((navigateFilterMatch ''next'' ^^ k) st) =
           (filterFinderCurrentIndex st + int k) mod int (length (filterFinderMatches st))"
proof (induction k)
  case 0
  then show ?case using assms by simp
next
  case (Suc k)
  let ?s = "(navigateFilterMatch ''next'' ^^ k) st"
  have "0 \<le> filterFinderCurrentIndex ?s" using Suc assms by simp
  then have "filterFinderCurrentIndex (navigateFilterMatch ''next'' ?s) =
      (filterFinderCurrentIndex ?s + 1) mod int (length (filterFinderMatches st))"
    using navigate_next_index[of ?s] assms(1) by simp
  also have "\<dots> = (filterFinderCurrentIndex st + int k + 1) mod int (length (filterFinderMatches st))"
    using Suc by (simp add: mod_add_left_eq)
  finally show ?case by (simp add: algebra_simps)
qed

lemma navigate_prev_iter:
  assumes "filterFinderMatches st \<noteq> []" "0 \<le> filterFinderCurrentIndex st"
    "filterFinderCurrentIndex st < int (length (filterFinderMatches st))"
  shows "filterFinderCurrentIndex ((navigateFilterMatch ''prev'' ^^ k) st) =
           (filterFinderCurrentIndex st - int k) mod int (length (filterFinderMatches st))"
proof (induction k)
  case 0
  then show ?case using assms by simp
next
  case (Suc k)
  let ?s = "(navigateFilterMatch ''prev'' ^^ k) st"
  have "0 \<le> filterFinderCurrentIndex ?s" using Suc assms by simp
  then have "filterFinderCurrentIndex (navigateFilterMatch ''prev'' ?s) =
      (filterFinderCurrentIndex ?s - 1) mod int (length (filterFinderMatches st))"
    using navigate_prev_index[of ?s] assms(1) by simp
  also have "\<dots> = (filterFinderCurrentIndex st - int k - 1) mod int (length (filterFinderMatches st))"
    using Suc by (simp add: mod_diff_left_eq)
  finally show ?case by (simp add: algebra_simps)
qed


lemma scheduleFilterUpdate_finder [simp]:
  "filterFinderMatches (scheduleFilterUpdate st) = filterFinderMatches st"
  "filterFinderCurrentIndex (scheduleFilterUpdate st) = filterFinderCurrentIndex st"
  by (simp_all add: scheduleFilterUpdate_def setTimeout_def clearTimeout_def Let_def
      split: option.split)

lemma finder_ok_step: "finder_ok st \<Longrightarrow> finder_ok (step ev st)"
proof (cases ev)
  case (NavigateFilterMatch d)
  assume ok: "finder_ok st"
  show ?thesis
  proof (cases "filterFinderMatches st = []")
    case True
    then show ?thesis using NavigateFilterMatch ok by (simp add: finder_ok_def)
  next
    case False
    then have r: "0 \<le> filterFinderCurrentIndex st" using ok by (simp add: finder_ok_def)
    have n: "0 < int (length (filterFinderMatches st))" using False by simp
    show ?thesis
    proof (cases "d = ''next''")
      case True
      then show ?thesis
        using NavigateFilterMatch False navigate_next_index[OF False r] n
        by (simp add: finder_ok_def del: of_nat_0_less_iff)
    next
      case False
      have "filterFinderCurrentIndex (navigateFilterMatch d st) = filterFinderCurrentIndex (navigateFilterMatch ''prev'' st)"
        using False by (simp add: navigateFilterMatch_def)
      then show ?thesis
        using NavigateFilterMatch \<open>filterFinderMatches st \<noteq> []\<close>
          navigate_prev_index[OF \<open>filterFinderMatches st \<noteq> []\<close> r] n
        by (simp add: finder_ok_def del: of_nat_0_less_iff)
    qed
  qed
qed (auto simp: finder_ok_def toggleFilterSelection_def removeFilterTagById_def
      selectAllInGroup_def clearGroup_def resetFilters_def cancelPending_def clearTimeout_def
      selectAllChildrenInHierarchy_def clearAllChildrenInHierarchy_def selectCategory_def
      timeoutFires_def searchFilterOptions_def clearFilterSearch_def Let_def
      split: option.splits property.splits group_values.splits)

lemma finder_ok_run: "finder_ok st \<Longrightarrow> finder_ok (run evs st)"
  unfolding run_def by (induction evs arbitrary: st) (simp_all add: finder_ok_step)

lemma finder_ok_init: "finder_ok (FilterManager ds)"
  by (simp add: finder_ok_def FilterManager_def)

text \<open>
  Claim C8. Without matches \<^verbatim>\<open>navigateFilterMatch\<close> changes nothing. In every state
  the manager can reach from its constructor the current index is a position of the
  match list when that list is not empty; and in every state where this is so and the
  list has \<open>n > 0\<close> entries, \<open>n\<close> steps \<^verbatim>\<open>'next'\<close> bring the current index back to
  where it was, and so do \<open>n\<close> steps \<^verbatim>\<open>'prev'\<close>.
\<close>

theorem navigateFilterMatch_cyclic:
  "(filterFinderMatches st = [] \<longrightarrow> navigateFilterMatch d st = st) \<and>
   finder_ok (run evs (FilterManager ds)) \<and>
   (filterFinderMatches st \<noteq> [] \<and> finder_ok st \<longrightarrow>
      filterFinderCurrentIndex
        ((navigateFilterMatch ''next'' ^^ length (filterFinderMatches st)) st) =
        filterFinderCurrentIndex st \<and>
      filterFinderCurrentIndex
        ((navigateFilterMatch ''prev'' ^^ length (filterFinderMatches st)) st) =
        filterFinderCurrentIndex st)"
proof -
  have a: "filterFinderMatches st = [] \<longrightarrow> navigateFilterMatch d st = st"
    by (simp add: navigateFilterMatch_def)
  have ok: "finder_ok (run evs (FilterManager ds))"
    by (rule finder_ok_run[OF finder_ok_init])
  have b: "filterFinderCurrentIndex
        ((navigateFilterMatch ''next'' ^^ length (filterFinderMatches st)) st) =
      filterFinderCurrentIndex st \<and>
      filterFinderCurrentIndex
        ((navigateFilterMatch ''prev'' ^^ length (filterFinderMatches st)) st) =
      filterFinderCurrentIndex st"
    if ne: "filterFinderMatches st \<noteq> []" and fo: "finder_ok st"
  proof -
    have r: "0 \<le> filterFinderCurrentIndex st"
      "filterFinderCurrentIndex st < int (length (filterFinderMatches st))"
      using fo ne by (simp_all add: finder_ok_def)
    show ?thesis
      using navigate_next_iter[OF ne r, of "length (filterFinderMatches st)"]
        navigate_prev_iter[OF ne r, of "length (filterFinderMatches st)"] r
      by simp
  qed
  show ?thesis using a ok b by blast
qed

theorem navigateFilterMatch_cyclic_witness:
  "navigateFilterMatch ''next'' (FilterManager []) = FilterManager [] \<and>
   length (filterFinderMatches (run finder_events (FilterManager []))) = 2 \<and>
   filterFinderCurrentIndex (run finder_events (FilterManager [])) = 1 \<and>
   filterFinderCurrentIndex
     ((navigateFilterMatch ''next'' ^^ 2) (run finder_events (FilterManager []))) = 1 \<and>
   filterFinderCurrentIndex
     ((navigateFilterMatch ''prev'' ^^ 2) (run finder_events (FilterManager []))) = 1"
proof -
  have e: "filterFinderMatches (FilterManager []) = []"
    by (simp add: FilterManager_def)
  have m: "filterFinderMatches (run finder_events (FilterManager [])) =
      [\<lparr>element = 0, text_of = ''Hammer''\<rparr>, \<lparr>element = 3, text_of = ''hammock''\<rparr>]"
    by code_simp
  have i: "filterFinderCurrentIndex (run finder_events (FilterManager [])) = 1"
    by code_simp
  have n: "navigateFilterMatch ''next'' (FilterManager []) = FilterManager []"
    using navigateFilterMatch_cyclic[of "FilterManager []" "''next''" "[]" "[]"] e by blast
  have ok: "finder_ok (run finder_events (FilterManager []))"
    using navigateFilterMatch_cyclic[of "FilterManager []" "''next''" finder_events "[]"]
    by blast
  have "filterFinderCurrentIndex
      ((navigateFilterMatch ''next'' ^^ length (filterFinderMatches (run finder_events (FilterManager []))))
         (run finder_events (FilterManager []))) =
      filterFinderCurrentIndex (run finder_events (FilterManager [])) \<and>
    filterFinderCurrentIndex
      ((navigateFilterMatch ''prev'' ^^ length (filterFinderMatches (run finder_events (FilterManager []))))
         (run finder_events (FilterManager []))) =
      filterFinderCurrentIndex (run finder_events (FilterManager []))"
    using navigateFilterMatch_cyclic[of "run finder_events (FilterManager [])" "''next''" "[]" "[]"]
      ok m by simp
  then show ?thesis using n m i by (simp add: numeral_2_eq_2)
qed


section \<open>Selection state\<close>

lemma scheduleFilterUpdate_selection [simp]:
  "selectedFilters (scheduleFilterUpdate st) = selectedFilters st"
  "filterGroups (scheduleFilterUpdate st) = filterGroups st"
  "datasets (scheduleFilterUpdate st) = datasets st"
  by (simp_all add: scheduleFilterUpdate_def setTimeout_def clearTimeout_def Let_def
      split: option.split)

lemma toggle_selection:
  "selectedFilters (toggleFilterSelection k v st) =
     (if filterId k v \<in> set (selectedFilters st)
      then set_delete (filterId k v) (selectedFilters st)
      else set_add (filterId k v) (selectedFilters st))"
  by (simp add: toggleFilterSelection_def Let_def)

lemma addAll_Nil [simp]: "addAll k [] sel = sel"
  by (simp add: addAll_def)

lemma addAll_Cons [simp]:
  "addAll k (v # vs) sel =
     addAll k vs (if filterId k v \<in> set sel then sel else sel @ [filterId k v])"
  by (simp add: addAll_def set_add_def)

lemma addAll_append [simp]: "addAll k (vs @ ws) sel = addAll k ws (addAll k vs sel)"
  by (simp add: addAll_def)

lemma set_addAll: "set (addAll k vs sel) = set sel \<union> filterId k ` set vs"
  by (induction vs arbitrary: sel) auto

lemma addAll_present: "filterId k ` set vs \<subseteq> set sel \<Longrightarrow> addAll k vs sel = sel"
  by (induction vs arbitrary: sel) auto

lemma addAll_twice: "addAll k vs (addAll k vs sel) = addAll k vs sel"
  by (rule addAll_present) (simp add: set_addAll)

lemma selectAllInHierarchy_addAll:
  "selectAllInHierarchy k m sel = addAll k (leaf_labels m) sel"
  by (induction k m sel rule: selectAllInHierarchy.induct) (auto simp: set_add_def Let_def)

lemma selectAllInGroup_selection:
  "selectedFilters (selectAllInGroup g st) =
     (case get_property (filterGroups st) g of
        Own grp \<Rightarrow>
          (case group_values grp of
             Flat vs \<Rightarrow> addAll g vs (selectedFilters st)
           | Hierarchical m \<Rightarrow> addAll g (leaf_labels m) (selectedFilters st))
      | _ \<Rightarrow> selectedFilters st)"
  by (simp add: selectAllInGroup_def addAll_def selectAllInHierarchy_addAll
      split: property.split group_values.split)

lemma selectAllInGroup_groups [simp]:
  "filterGroups (selectAllInGroup g st) = filterGroups st"
  by (simp add: selectAllInGroup_def split: property.split)

text \<open>
  Claim C7. Toggling the same facet value twice gives back the selection set it started
  from, and selecting all values of a group twice gives the same selection as selecting
  them once.
\<close>

theorem toggle_twice_selectAll_twice:
  "set (selectedFilters (toggleFilterSelection f v (toggleFilterSelection f v st))) =
     set (selectedFilters st) \<and>
   selectedFilters (selectAllInGroup g (selectAllInGroup g st)) =
     selectedFilters (selectAllInGroup g st)"
proof
  show "set (selectedFilters (toggleFilterSelection f v (toggleFilterSelection f v st))) =
     set (selectedFilters st)"
    by (auto simp: toggle_selection set_add_def set_delete_def)
  show "selectedFilters (selectAllInGroup g (selectAllInGroup g st)) =
     selectedFilters (selectAllInGroup g st)"
    by (simp add: selectAllInGroup_selection addAll_twice
        split: property.split group_values.split)
qed

theorem toggle_twice_selectAll_twice_witness:
  "set (selectedFilters
     (toggleFilterSelection ''scene'' ''kitchen''
       (toggleFilterSelection ''scene'' ''kitchen''
         (run [BuildFilterGroups [] None, ToggleFilterSelection ''scene'' ''kitchen'']
            (FilterManager [example_dataset ''A'' [''kitchen''] [[''tool'', ''hammer'']]]))))) =
     {''scene:kitchen''} \<and>
   selectedFilters
     (selectAllInGroup ''object''
       (selectAllInGroup ''object''
         (run [BuildFilterGroups [] None, ToggleFilterSelection ''scene'' ''kitchen'']
            (FilterManager [example_dataset ''A'' [''kitchen''] [[''tool'', ''hammer'']]])))) =
     [''scene:kitchen'', ''object:hammer'']"
proof -
  have a: "selectedFilters
      (run [BuildFilterGroups [] None, ToggleFilterSelection ''scene'' ''kitchen'']
         (FilterManager [example_dataset ''A'' [''kitchen''] [[''tool'', ''hammer'']]])) =
      [''scene:kitchen'']"
    by code_simp
  have b: "selectedFilters
      (selectAllInGroup ''object''
         (run [BuildFilterGroups [] None, ToggleFilterSelection ''scene'' ''kitchen'']
            (FilterManager [example_dataset ''A'' [''kitchen''] [[''tool'', ''hammer'']]]))) =
      [''scene:kitchen'', ''object:hammer'']"
    by code_simp
  show ?thesis
    using toggle_twice_selectAll_twice[of "''scene''" "''kitchen''"
        "run [BuildFilterGroups [] None, ToggleFilterSelection ''scene'' ''kitchen'']
           (FilterManager [example_dataset ''A'' [''kitchen''] [[''tool'', ''hammer'']]])"
        "''object''"] a b
    by simp
qed


section \<open>The scheduled recomputation\<close>

lemma timer_ok_schedule:
  "timer_ok st \<Longrightarrow> timer_ok (scheduleFilterUpdate (selectedFilters_update f st))"
  by (auto simp: timer_ok_def scheduleFilterUpdate_def setTimeout_def clearTimeout_def Let_def
      split: option.splits)

lemma timer_ok_schedule_id: "timer_ok st \<Longrightarrow> timer_ok (scheduleFilterUpdate st)"
  by (auto simp: timer_ok_def scheduleFilterUpdate_def setTimeout_def clearTimeout_def Let_def
      split: option.splits)

lemma timer_ok_cancel: "timer_ok st \<Longrightarrow> timer_ok (cancelPending st)"
  by (auto simp: timer_ok_def cancelPending_def clearTimeout_def split: option.splits)

lemma timer_ok_step: "timer_ok st \<Longrightarrow> timer_ok (step ev st)"
proof (cases ev)
  case ResetFilters
  assume "timer_ok st"
  then have "timer_ok (cancelPending st)" by (rule timer_ok_cancel)
  then show ?thesis using ResetFilters
    by (simp add: resetFilters_def Let_def timer_ok_schedule)
next
  case (TimeoutFires h)
  assume "timer_ok st"
  then show ?thesis using TimeoutFires
    by (auto simp: timer_ok_def timeoutFires_def split: option.splits)
next
  case (SelectAllInGroup g)
  assume "timer_ok st"
  then show ?thesis using SelectAllInGroup
    by (simp add: selectAllInGroup_def timer_ok_schedule timer_ok_schedule_id split: property.split)
next
  case (SelectAllChildrenInHierarchy g p)
  assume "timer_ok st"
  then show ?thesis using SelectAllChildrenInHierarchy
    by (simp add: selectAllChildrenInHierarchy_def timer_ok_schedule
        split: property.split group_values.split option.split)
next
  case (ClearAllChildrenInHierarchy g p)
  assume "timer_ok st"
  then show ?thesis using ClearAllChildrenInHierarchy
    by (simp add: clearAllChildrenInHierarchy_def timer_ok_schedule
        split: property.split group_values.split option.split)
next
  case (NavigateFilterMatch d)
  assume "timer_ok st"
  then show ?thesis using NavigateFilterMatch
    by (auto simp: timer_ok_def navigateFilterMatch_def split: option.splits)
next
  case (SearchFilterOptions q page)
  assume "timer_ok st"
  then show ?thesis using SearchFilterOptions
    by (auto simp: timer_ok_def searchFilterOptions_def clearFilterSearch_def Let_def
        split: option.splits)
next
  case (BuildFilterGroups box page)
  assume "timer_ok st"
  then show ?thesis using BuildFilterGroups
    by (auto simp: timer_ok_def selectCategory_def searchFilterOptions_def
        clearFilterSearch_def Let_def split: option.splits)
next
  case (SelectCategory key box page)
  assume "timer_ok st"
  then show ?thesis using SelectCategory
    by (auto simp: timer_ok_def selectCategory_def searchFilterOptions_def
        clearFilterSearch_def Let_def split: option.splits)
qed (simp_all add: toggleFilterSelection_def removeFilterTagById_def clearGroup_def
      timer_ok_schedule Let_def, auto simp: timer_ok_def clearFilterSearch_def split: option.splits)

lemma timer_ok_run: "timer_ok st \<Longrightarrow> timer_ok (run evs st)"
  unfolding run_def by (induction evs arbitrary: st) (simp_all add: timer_ok_step)

lemma timer_ok_init: "timer_ok (FilterManager ds)"
  by (simp add: timer_ok_def FilterManager_def)

lemma handles_from_schedule:
  "handles_from b st \<Longrightarrow> handles_from b (scheduleFilterUpdate (selectedFilters_update f st))"
  by (auto simp: handles_from_def scheduleFilterUpdate_def setTimeout_def clearTimeout_def
      Let_def list_all_iff split: option.splits)

lemma handles_from_schedule_id: "handles_from b st \<Longrightarrow> handles_from b (scheduleFilterUpdate st)"
  by (auto simp: handles_from_def scheduleFilterUpdate_def setTimeout_def clearTimeout_def
      Let_def list_all_iff split: option.splits)

lemma handles_from_cancel: "handles_from b st \<Longrightarrow> handles_from b (cancelPending st)"
  by (auto simp: handles_from_def cancelPending_def clearTimeout_def list_all_iff
      split: option.splits)

lemma handles_from_step: "handles_from b st \<Longrightarrow> handles_from b (step ev st)"
proof (cases ev)
  case ResetFilters
  assume "handles_from b st"
  then have "handles_from b (cancelPending st)" by (rule handles_from_cancel)
  then show ?thesis using ResetFilters
    by (simp add: resetFilters_def Let_def handles_from_schedule)
next
  case (TimeoutFires h)
  assume "handles_from b st"
  then show ?thesis using TimeoutFires
    by (auto simp: handles_from_def timeoutFires_def list_all_iff)
next
  case (SelectAllInGroup g)
  assume "handles_from b st"
  then show ?thesis using SelectAllInGroup
    by (simp add: selectAllInGroup_def handles_from_schedule handles_from_schedule_id
        split: property.split)
next
  case (SelectAllChildrenInHierarchy g p)
  assume "handles_from b st"
  then show ?thesis using SelectAllChildrenInHierarchy
    by (simp add: selectAllChildrenInHierarchy_def handles_from_schedule
        split: property.split group_values.split option.split)
next
  case (ClearAllChildrenInHierarchy g p)
  assume "handles_from b st"
  then show ?thesis using ClearAllChildrenInHierarchy
    by (simp add: clearAllChildrenInHierarchy_def handles_from_schedule
        split: property.split group_values.split option.split)
next
  case (NavigateFilterMatch d)
  assume "handles_from b st"
  then show ?thesis using NavigateFilterMatch
    by (simp add: handles_from_def navigateFilterMatch_def)
next
  case (SearchFilterOptions q page)
  assume "handles_from b st"
  then show ?thesis using SearchFilterOptions
    by (simp add: handles_from_def searchFilterOptions_def clearFilterSearch_def Let_def
        split: option.split)
next
  case (BuildFilterGroups box page)
  assume "handles_from b st"
  then show ?thesis using BuildFilterGroups
    by (auto simp: handles_from_def selectCategory_def searchFilterOptions_def
        clearFilterSearch_def Let_def split: option.splits)
next
  case (SelectCategory key box page)
  assume "handles_from b st"
  then show ?thesis using SelectCategory
    by (auto simp: handles_from_def selectCategory_def searchFilterOptions_def
        clearFilterSearch_def Let_def split: option.splits)
qed (simp_all add: toggleFilterSelection_def removeFilterTagById_def clearGroup_def
      handles_from_schedule Let_def, simp_all add: handles_from_def clearFilterSearch_def)

lemma handles_from_run: "handles_from b st \<Longrightarrow> handles_from b (run evs st)"
  unfolding run_def by (induction evs arbitrary: st) (simp_all add: handles_from_step)

lemma reset_result:
  assumes "timer_ok st"
  shows "timeouts (cancelPending st) = []"
    and "pendingFilterUpdate (cancelPending st) = None"
    and "selectedFilters (resetFilters st) = []"
    and "timeouts (resetFilters st) = [next_handle st]"
    and "pendingFilterUpdate (resetFilters st) = Some (next_handle st)"
    and "next_handle (resetFilters st) = Suc (next_handle st)"
  using assms
  by (auto simp: timer_ok_def resetFilters_def cancelPending_def scheduleFilterUpdate_def
      setTimeout_def clearTimeout_def Let_def split: option.splits)

text \<open>
  Claim C9. In every state the manager can reach from its constructor, the timeouts it
  has scheduled are exactly the one in the pending slot, if any. In every state where
  this is so, \<^verbatim>\<open>resetFilters\<close> first clears the pending timeout and empties the pending
  slot, then empties the selection, then schedules a new update. Afterwards the
  selection is empty and exactly one timeout is scheduled, the new one, which is the one
  in the pending slot; every timeout scheduled before the reset has a smaller handle,
  and whatever happens after the reset, a timeout with such a handle never fires.
\<close>

theorem resetFilters_cancels_and_reschedules:
  "timer_ok (run evs (FilterManager ds)) \<and>
   (timer_ok st \<longrightarrow>
      timeouts (cancelPending st) = [] \<and>
      pendingFilterUpdate (cancelPending st) = None \<and>
      resetFilters st = scheduleFilterUpdate ((cancelPending st)\<lparr>selectedFilters := []\<rparr>) \<and>
      selectedFilters (resetFilters st) = [] \<and>
      timeouts (resetFilters st) = [next_handle st] \<and>
      pendingFilterUpdate (resetFilters st) = Some (next_handle st) \<and>
      list_all (\<lambda>h'. h' < next_handle st) (timeouts st) \<and>
      (h < next_handle st \<longrightarrow>
         timeoutFires h (run evs' (resetFilters st)) = run evs' (resetFilters st)))"
proof -
  have reach: "timer_ok (run evs (FilterManager ds))"
    by (rule timer_ok_run[OF timer_ok_init])
  have main: "timeouts (cancelPending st) = [] \<and>
      pendingFilterUpdate (cancelPending st) = None \<and>
      resetFilters st = scheduleFilterUpdate ((cancelPending st)\<lparr>selectedFilters := []\<rparr>) \<and>
      selectedFilters (resetFilters st) = [] \<and>
      timeouts (resetFilters st) = [next_handle st] \<and>
      pendingFilterUpdate (resetFilters st) = Some (next_handle st) \<and>
      list_all (\<lambda>h'. h' < next_handle st) (timeouts st) \<and>
      (h < next_handle st \<longrightarrow>
         timeoutFires h (run evs' (resetFilters st)) = run evs' (resetFilters st))"
    if ok: "timer_ok st"
  proof -
    note r = reset_result[OF ok]
    have old: "list_all (\<lambda>h'. h' < next_handle st) (timeouts st)"
      using ok by (auto simp: timer_ok_def split: option.splits)
    have "handles_from (next_handle st) (resetFilters st)"
      using r by (simp add: handles_from_def)
    then have "handles_from (next_handle st) (run evs' (resetFilters st))"
      by (rule handles_from_run)
    then have "h \<notin> set (timeouts (run evs' (resetFilters st)))" if "h < next_handle st"
      using that by (auto simp: handles_from_def list_all_iff)
    then have fut: "h < next_handle st \<longrightarrow>
        timeoutFires h (run evs' (resetFilters st)) = run evs' (resetFilters st)"
      by (simp add: timeoutFires_def)
    have eq: "resetFilters st = scheduleFilterUpdate ((cancelPending st)\<lparr>selectedFilters := []\<rparr>)"
      by (simp add: resetFilters_def Let_def)
    show ?thesis using r(1-5) old fut eq by blast
  qed
  show ?thesis using reach main by blast
qed

theorem resetFilters_cancels_and_reschedules_witness:
  "timer_ok (run [ToggleFilterSelection ''scene'' ''kitchen''] (FilterManager [])) \<and>
   timeouts (run [ToggleFilterSelection ''scene'' ''kitchen''] (FilterManager [])) = [1] \<and>
   next_handle (run [ToggleFilterSelection ''scene'' ''kitchen''] (FilterManager [])) = 2 \<and>
   timeouts (resetFilters (run [ToggleFilterSelection ''scene'' ''kitchen''] (FilterManager []))) = [2] \<and>
   timeoutFires 1
     (run [ToggleFilterSelection ''robot'' ''armX'']
        (resetFilters (run [ToggleFilterSelection ''scene'' ''kitchen''] (FilterManager [])))) =
   run [ToggleFilterSelection ''robot'' ''armX'']
     (resetFilters (run [ToggleFilterSelection ''scene'' ''kitchen''] (FilterManager [])))"
proof -
  have a: "timeouts (run [ToggleFilterSelection ''scene'' ''kitchen''] (FilterManager [])) = [1]"
    by code_simp
  have b: "next_handle (run [ToggleFilterSelection ''scene'' ''kitchen''] (FilterManager [])) = 2"
    by code_simp
  have ok: "timer_ok (run [ToggleFilterSelection ''scene'' ''kitchen''] (FilterManager []))"
    using resetFilters_cancels_and_reschedules[of "[ToggleFilterSelection ''scene'' ''kitchen'']"
        "[]" "FilterManager []" 0 "[]"]
    by blast
  note T = resetFilters_cancels_and_reschedules[of "[]" "[]"
      "run [ToggleFilterSelection ''scene'' ''kitchen''] (FilterManager [])" 1
      "[ToggleFilterSelection ''robot'' ''armX'']"]
  have c: "timeouts (resetFilters (run [ToggleFilterSelection ''scene'' ''kitchen''] (FilterManager []))) =
      [next_handle (run [ToggleFilterSelection ''scene'' ''kitchen''] (FilterManager []))]"
    using T ok by blast
  have d: "1 < next_handle (run [ToggleFilterSelection ''scene'' ''kitchen''] (FilterManager [])) \<longrightarrow>
      timeoutFires 1
       (run [ToggleFilterSelection ''robot'' ''armX'']
         (resetFilters (run [ToggleFilterSelection ''scene'' ''kitchen''] (FilterManager [])))) =
      run [ToggleFilterSelection ''robot'' ''armX'']
         (resetFilters (run [ToggleFilterSelection ''scene'' ''kitchen''] (FilterManager [])))"
    using T ok by blast
  show ?thesis using ok a b c d by simp
qed


section \<open>Filter evaluation\<close>

subsection \<open>Identifiers and their decoding\<close>

lemma split_str_no_sep: "sep \<notin> set s \<Longrightarrow> split_str sep s = [s]"
  by (induction s) auto

lemma split_str_hd: "\<exists>ps. split_str sep s = takeWhile (\<lambda>c. c \<noteq> sep) s # ps"
  by (induction s) (auto split: list.split)

lemma split_str_append:
  "sep \<notin> set k \<Longrightarrow> split_str sep (k @ sep # v) = k # split_str sep v"
  by (induction k) auto

lemma parse_filterId:
  assumes "CHR '':'' \<notin> set f"
  shows "parseFilterId (filterId f v) = (f, Some (takeWhile (\<lambda>c. c \<noteq> CHR '':'') v))"
proof -
  obtain ps where "split_str CHR '':'' v = takeWhile (\<lambda>c. c \<noteq> CHR '':'') v # ps"
    using split_str_hd by blast
  then show ?thesis
    using split_str_append[OF assms, of v] by (simp add: parseFilterId_def filterId_def)
qed

lemma takeWhile_no_sep: "sep \<notin> set v \<Longrightarrow> takeWhile (\<lambda>c. c \<noteq> sep) v = v"
  by (induction v) auto

lemma takeWhile_sep_neq: "sep \<in> set v \<Longrightarrow> takeWhile (\<lambda>c. c \<noteq> sep) v \<noteq> v"
  by (metis (mono_tags, lifting) set_takeWhileD)

lemma takeWhile_idem_sep: "sep \<notin> set (takeWhile (\<lambda>c. c \<noteq> sep) v)"
  by (auto dest: set_takeWhileD)

lemma parse_filterId_plain:
  "CHR '':'' \<notin> set f \<Longrightarrow> CHR '':'' \<notin> set v \<Longrightarrow> parseFilterId (filterId f v) = (f, Some v)"
  by (simp add: parse_filterId takeWhile_no_sep)

subsection \<open>Grouping of the selected values and the tests\<close>

lemma includes_str_sublist: "includes_str s sub \<longleftrightarrow> sublist sub s"
  by (induction s) (auto simp: sublist_Cons_right)

lemma collectLoop_snoc:
  "collectLoop fs (sel @ [fid]) =
     (case collectLoop fs sel of Inl e \<Rightarrow> Inl e | Inr fs' \<Rightarrow> pushFilter fs' fid)"
  by (induction sel arbitrary: fs) (auto split: sum.splits)

lemma toggle_datasets [simp]: "datasets (toggleFilterSelection f v st) = datasets st"
  by (simp add: toggleFilterSelection_def scheduleFilterUpdate_def setTimeout_def
      clearTimeout_def Let_def split: option.split)

lemma facetMatch_affected:
  assumes "None \<notin> set vs"
  shows "facetMatch k vs ds \<longleftrightarrow> (\<exists>v. Some v \<in> set vs \<and> affected k v ds)"
proof -
  consider "k = ''scene''" | "k = ''robot''" | "k = ''end''" | "k = ''action''"
    | "k = ''object''"
    | "k \<noteq> ''scene''" "k \<noteq> ''robot''" "k \<noteq> ''end''" "k \<noteq> ''action''" "k \<noteq> ''object''"
    by blast
  then show ?thesis
  proof cases
    case 1
    then show ?thesis
      by (auto simp: facetMatch_def affected_def list_ex_iff split: option.splits)
  next
    case 2
    then show ?thesis using assms
      by (cases "robot ds") (auto simp: facetMatch_def affected_def list_ex_iff)
  next
    case 3
    then show ?thesis using assms
      by (cases "endEffector ds") (auto simp: facetMatch_def affected_def)
  next
    case 4
    then show ?thesis
      by (auto simp: facetMatch_def affected_def list_ex_iff split: option.splits)
  next
    case 5
    then show ?thesis
      by (auto simp: facetMatch_def affected_def list_ex_iff split: option.splits)
  next
    case 6
    then show ?thesis by (simp add: facetMatch_def affected_def)
  qed
qed

lemma facetMatch_single: "facetMatch k [Some v] ds = affected k v ds"
  by (simp add: facetMatch_affected)

lemma matches_value_affected: "matches_value f v ds = affected f v ds"
proof -
  consider "f = ''scene''" | "f = ''robot''" | "f = ''end''" | "f = ''action''"
    | "f = ''object''"
    | "f \<noteq> ''scene''" "f \<noteq> ''robot''" "f \<noteq> ''end''" "f \<noteq> ''action''" "f \<noteq> ''object''"
    by blast
  then show ?thesis
  proof cases
    case 2
    then show ?thesis
      by (cases "robot ds") (auto simp: matches_value_def affected_def)
  next
    case 5
    then show ?thesis
      by (auto simp: matches_value_def affected_def list_ex_iff split: option.splits)
  qed (simp_all add: matches_value_def affected_def split: option.splits)
qed

lemma count_length_filter:
  "fold (\<lambda>ds count. if P ds then count + 1 else count) dss n = n + length (filter P dss)"
  by (induction dss arbitrary: n) auto

lemma calculateAffectedCount_filter:
  "calculateAffectedCount st k v = length (filter (affected k v) (datasets st))"
  by (simp add: calculateAffectedCount_def count_length_filter)

lemma pushFilter_cases:
  assumes "parseFilterId fid = (k, v)" and "k \<notin> set object_prototype_names"
  shows "pushFilter fs fid =
     Inr (case map_of fs k of None \<Rightarrow> fs @ [(k, [v])] | Some vs \<Rightarrow> AList.update k (vs @ [v]) fs)"
  using assms by (simp add: pushFilter_def get_property_def split: option.split)

lemma values_of_push:
  assumes "distinct (map fst fs)"
  shows "values_of (case map_of fs k of None \<Rightarrow> fs @ [(k, [v])]
                    | Some vs \<Rightarrow> AList.update k (vs @ [v]) fs) k' =
         (if k' = k then values_of fs k @ [v] else values_of fs k')"
proof (cases "map_of fs k")
  case None
  then have "k \<notin> fst ` set fs" by (simp add: map_of_eq_None_iff)
  then show ?thesis using None assms
    by (auto simp: values_of_def map_of_append map_add_def split: option.splits)
next
  case (Some vs)
  then show ?thesis by (simp add: values_of_def update_conv')
qed

lemma keys_push:
  "fst ` set (case map_of fs k of None \<Rightarrow> fs @ [(k, [v])]
              | Some vs \<Rightarrow> AList.update k (vs @ [v]) fs) = insert k (fst ` set fs)"
  by (auto simp: dom_update split: option.splits)

lemma distinct_push:
  "distinct (map fst fs) \<Longrightarrow>
   distinct (map fst (case map_of fs k of None \<Rightarrow> fs @ [(k, [v])]
                      | Some vs \<Rightarrow> AList.update k (vs @ [v]) fs))"
  by (auto simp: distinct_update map_of_eq_None_iff split: option.splits)

lemma collectLoop_groups:
  assumes "\<forall>fid \<in> set sel. fst (parseFilterId fid) \<notin> set object_prototype_names"
    and "distinct (map fst fs)"
  shows "\<exists>fs'. collectLoop fs sel = Inr fs' \<and> distinct (map fst fs') \<and>
           fst ` set fs' = fst ` set fs \<union> (fst \<circ> parseFilterId) ` set sel \<and>
           (\<forall>k. set (values_of fs' k) =
                  set (values_of fs k) \<union> {v. (k, v) \<in> parseFilterId ` set sel})"
  using assms
proof (induction sel arbitrary: fs)
  case Nil
  then show ?case by simp
next
  case (Cons fid sel)
  obtain k v where kv: "parseFilterId fid = (k, v)" by (cases "parseFilterId fid")
  let ?fs1 = "case map_of fs k of None \<Rightarrow> fs @ [(k, [v])]
              | Some vs \<Rightarrow> AList.update k (vs @ [v]) fs"
  have k: "k \<notin> set object_prototype_names" using Cons.prems(1) kv by auto
  have p: "pushFilter fs fid = Inr ?fs1" by (rule pushFilter_cases[OF kv k])
  have d1: "distinct (map fst ?fs1)" by (rule distinct_push[OF Cons.prems(2)])
  have rest: "\<forall>fid \<in> set sel. fst (parseFilterId fid) \<notin> set object_prototype_names"
    using Cons.prems(1) by simp
  from Cons.IH[OF rest d1] obtain fs' where
    c: "collectLoop ?fs1 sel = Inr fs'" and d: "distinct (map fst fs')"
    and ks: "fst ` set fs' = fst ` set ?fs1 \<union> (fst \<circ> parseFilterId) ` set sel"
    and vs: "\<And>k'. set (values_of fs' k') =
                  set (values_of ?fs1 k') \<union> {v. (k', v) \<in> parseFilterId ` set sel}"
    by blast
  have "collectLoop fs (fid # sel) = Inr fs'" using p c by simp
  moreover have "fst ` set fs' = fst ` set fs \<union> (fst \<circ> parseFilterId) ` set (fid # sel)"
    using ks kv by (simp add: keys_push)
  moreover have "set (values_of fs' k') =
      set (values_of fs k') \<union> {v. (k', v) \<in> parseFilterId ` set (fid # sel)}" for k'
    using vs[of k'] kv by (auto simp: values_of_push[OF Cons.prems(2)])
  ultimately show ?case using d by blast
qed

lemma list_all_alist:
  assumes "distinct (map fst fs)"
  shows "list_all (\<lambda>(k, vs). P k vs) fs \<longleftrightarrow> (\<forall>k \<in> fst ` set fs. P k (values_of fs k))"
proof -
  have v: "values_of fs k = vs" if "(k, vs) \<in> set fs" for k vs
    using that assms by (simp add: values_of_def)
  show ?thesis
  proof
    assume a: "list_all (\<lambda>(k, vs). P k vs) fs"
    show "\<forall>k \<in> fst ` set fs. P k (values_of fs k)"
    proof
      fix k assume "k \<in> fst ` set fs"
      then obtain vs where m: "(k, vs) \<in> set fs" by auto
      then have "P k vs" using a by (auto simp: list_all_iff)
      then show "P k (values_of fs k)" using v[OF m] by simp
    qed
  next
    assume a: "\<forall>k \<in> fst ` set fs. P k (values_of fs k)"
    have "P k vs" if m: "(k, vs) \<in> set fs" for k vs
    proof -
      have "k \<in> fst ` set fs" using m by force
      then show ?thesis using a v[OF m] by auto
    qed
    then show "list_all (\<lambda>(k, vs). P k vs) fs" by (auto simp: list_all_iff)
  qed
qed

subsection \<open>Selections whose keys and values have no colon\<close>

text \<open>
  When no selected key or value contains a colon (and no key names a property of the
  object prototype), \<^verbatim>\<open>applyFilters\<close> returns exactly the records that pass the filter
  of the specification, in catalog order, and the affected count of a value is the
  number of records returned for the selection of that value alone.
\<close>

lemma applyFilters_selection:
  "applyFilters st q =
     (case collectLoop [] (selectedFilters st) of
        Inl e \<Rightarrow> Inl e
      | Inr filters \<Rightarrow>
          Inr (filter (\<lambda>ds.
                 (q = [] \<or> sublist (toLowerCase q) (toLowerCase (name ds))) \<and>
                 list_all (\<lambda>(key, vs). facetMatch key vs ds) filters)
               (datasets st)))"
  by (simp add: applyFilters_def collectFilters_def includes_str_sublist split: sum.split)

lemma parse_selection_ids:
  assumes "\<forall>(f, v) \<in> set selection. CHR '':'' \<notin> set f \<and> CHR '':'' \<notin> set v"
  shows "parseFilterId ` set (selection_ids selection) = (\<lambda>(f, v). (f, Some v)) ` set selection"
proof -
  have "parseFilterId (filterId f v) = (f, Some v)" if "(f, v) \<in> set selection" for f v
    using assms that by (auto intro: parse_filterId_plain)
  then show ?thesis by (force simp: selection_ids_def image_iff)
qed

lemma applyFilters_meets_spec:
  assumes ok: "\<forall>(f, v) \<in> set selection.
      CHR '':'' \<notin> set f \<and> f \<notin> set object_prototype_names \<and> CHR '':'' \<notin> set v"
    and sel: "selectedFilters st = selection_ids selection"
  shows "applyFilters st q = Inr (filter (passes selection q) (datasets st))"
proof -
  have ps: "parseFilterId ` set (selection_ids selection) =
      (\<lambda>(f, v). (f, Some v)) ` set selection"
    using ok by (intro parse_selection_ids) auto
  have keys_ok: "\<forall>fid \<in> set (selection_ids selection).
      fst (parseFilterId fid) \<notin> set object_prototype_names"
  proof
    fix fid assume "fid \<in> set (selection_ids selection)"
    then have "parseFilterId fid \<in> (\<lambda>(f, v). (f, Some v)) ` set selection"
      using ps by blast
    then show "fst (parseFilterId fid) \<notin> set object_prototype_names"
      using ok by auto
  qed
  from collectLoop_groups[OF keys_ok, of "[]"] obtain fs where
    c: "collectLoop [] (selection_ids selection) = Inr fs"
    and d: "distinct (map fst fs)"
    and ks: "fst ` set fs = (fst \<circ> parseFilterId) ` set (selection_ids selection)"
    and vs: "\<And>k. set (values_of fs k) = {v. (k, v) \<in> parseFilterId ` set (selection_ids selection)}"
    by (auto simp: values_of_def)
  have ks': "fst ` set fs = fst ` set selection"
  proof -
    have "fst ` set fs = fst ` (parseFilterId ` set (selection_ids selection))"
      using ks by (simp add: image_comp)
    also have "\<dots> = fst ` set selection" unfolding ps by force
    finally show ?thesis .
  qed
  have vs': "set (values_of fs k) = {Some v | v. (k, v) \<in> set selection}" for k
    unfolding vs ps by force
  have m: "list_all (\<lambda>(key, vs). facetMatch key vs ds) fs \<longleftrightarrow>
      (\<forall>f \<in> fst ` set selection.
         \<exists>v \<in> snd ` {e \<in> set selection. fst e = f}. matches_value f v ds)" for ds
  proof -
    have none: "None \<notin> set (values_of fs k)" for k using vs'[of k] by auto
    have "list_all (\<lambda>(key, vs). facetMatch key vs ds) fs \<longleftrightarrow>
        (\<forall>k \<in> fst ` set selection. facetMatch k (values_of fs k) ds)"
      using list_all_alist[OF d, of "\<lambda>k vs. facetMatch k vs ds"] ks' by simp
    also have "\<dots> \<longleftrightarrow> (\<forall>k \<in> fst ` set selection.
        \<exists>v. (k, v) \<in> set selection \<and> matches_value k v ds)"
      using vs' by (simp add: facetMatch_affected[OF none] matches_value_affected)
    also have "\<dots> \<longleftrightarrow> (\<forall>f \<in> fst ` set selection.
         \<exists>v \<in> snd ` {e \<in> set selection. fst e = f}. matches_value f v ds)"
      by force
    finally show ?thesis .
  qed
  show ?thesis
    unfolding applyFilters_selection sel c
    by (simp add: passes_def m cong: filter_cong)
qed

lemma calculateAffectedCount_single_selection:
  assumes "CHR '':'' \<notin> set f" and "f \<notin> set object_prototype_names"
    and "CHR '':'' \<notin> set v"
  shows "applyFilters (st\<lparr>selectedFilters := [filterId f v]\<rparr>) [] =
           Inr (filter (affected f v) (datasets st)) \<and>
         calculateAffectedCount st f v = length (filter (affected f v) (datasets st))"
  using assms
  by (simp add: applyFilters_def collectFilters_def pushFilter_def get_property_def
      parse_filterId_plain facetMatch_single calculateAffectedCount_filter)

subsection \<open>Values with a colon\<close>

text \<open>
  Claim C10. For a facet key \<open>f\<close> and a value \<open>v\<close> that contains a colon, toggling
  \<open>(f, v)\<close> into the selection stores the identifier of \<open>f\<close> and \<open>v\<close>;
  \<^verbatim>\<open>applyFilters\<close> splits it at the colons and takes as value only the part \<open>p\<close> of
  \<open>v\<close> before its first colon, which is not \<open>v\<close>. It filters as if \<open>p\<close> had been
  selected: on a selection that was empty, the records it returns are those that the
  affected-count test accepts for \<open>p\<close>.
\<close>

theorem colon_value_is_truncated:
  assumes "CHR '':'' \<notin> set f" and "f \<notin> set object_prototype_names"
    and "CHR '':'' \<in> set v"
    and "filterId f v \<notin> set (selectedFilters st)"
  shows "(let p = takeWhile (\<lambda>c. c \<noteq> CHR '':'') v in
           selectedFilters (toggleFilterSelection f v st) = selectedFilters st @ [filterId f v] \<and>
           parseFilterId (filterId f v) = (f, Some p) \<and>
           p \<noteq> v \<and>
           applyFilters (toggleFilterSelection f v st) q =
             applyFilters (st\<lparr>selectedFilters := selectedFilters st @ [filterId f p]\<rparr>) q \<and>
           (selectedFilters st = [] \<longrightarrow>
              applyFilters (toggleFilterSelection f v st) [] =
                Inr (filter (affected f p) (datasets st))))"
proof -
  let ?p = "takeWhile (\<lambda>c. c \<noteq> CHR '':'') v"
  have sel: "selectedFilters (toggleFilterSelection f v st) = selectedFilters st @ [filterId f v]"
    using assms(4) by (simp add: toggle_selection set_add_def)
  have pv: "parseFilterId (filterId f v) = (f, Some ?p)"
    by (rule parse_filterId[OF assms(1)])
  have pp: "parseFilterId (filterId f ?p) = (f, Some ?p)"
    by (rule parse_filterId_plain[OF assms(1) takeWhile_idem_sep])
  have ne: "?p \<noteq> v" by (rule takeWhile_sep_neq[OF assms(3)])
  have push: "pushFilter fs (filterId f v) = pushFilter fs (filterId f ?p)" for fs
    by (simp add: pushFilter_def pv pp)
  have ap: "applyFilters (toggleFilterSelection f v st) q =
      applyFilters (st\<lparr>selectedFilters := selectedFilters st @ [filterId f ?p]\<rparr>) q"
    by (simp add: applyFilters_def collectFilters_def sel collectLoop_snoc push split: sum.split)
  have single: "applyFilters (toggleFilterSelection f v st) [] =
      Inr (filter (affected f ?p) (datasets st))"
    if "selectedFilters st = []"
    using that assms(2)
    by (simp add: applyFilters_def collectFilters_def sel pushFilter_def get_property_def pv
        facetMatch_single)
  show ?thesis unfolding Let_def using sel pv ne ap single by blast
qed

theorem colon_value_is_truncated_witness:
  "CHR '':'' \<in> set ''a:b'' \<and>
   parseFilterId (filterId ''scene'' ''a:b'') = (''scene'', Some ''a'') \<and>
   applyFilters
     (toggleFilterSelection ''scene'' ''a:b''
       (FilterManager [example_dataset ''A'' [''a:b''] [], example_dataset ''B'' [''a''] []])) [] =
     Inr [example_dataset ''B'' [''a''] []]"
proof -
  have 1: "CHR '':'' \<notin> set ''scene''" by simp
  have 2: "CHR '':'' \<in> set ''a:b''" by simp
  have 3: "filterId ''scene'' ''a:b'' \<notin> set (selectedFilters
      (FilterManager [example_dataset ''A'' [''a:b''] [], example_dataset ''B'' [''a''] []]))"
    by (simp add: FilterManager_def)
  have 4: "selectedFilters
      (FilterManager [example_dataset ''A'' [''a:b''] [], example_dataset ''B'' [''a''] []]) = []"
    by (simp add: FilterManager_def)
  have 5: "filter (affected ''scene'' ''a'')
      (datasets (FilterManager [example_dataset ''A'' [''a:b''] [], example_dataset ''B'' [''a''] []])) =
      [example_dataset ''B'' [''a''] []]"
    by code_simp
  have 6: "takeWhile (\<lambda>c. c \<noteq> CHR '':'') ''a:b'' = ''a''" by simp
  have 8: "''scene'' \<notin> set object_prototype_names" by (simp add: object_prototype_names_def)
  note T = colon_value_is_truncated[OF 1 8 2 3, of "[]", unfolded Let_def 6]
  have 7: "parseFilterId (filterId ''scene'' ''a:b'') = (''scene'', Some ''a'')"
    using T by blast
  have "selectedFilters
      (FilterManager [example_dataset ''A'' [''a:b''] [], example_dataset ''B'' [''a''] []]) = [] \<longrightarrow>
    applyFilters
     (toggleFilterSelection ''scene'' ''a:b''
       (FilterManager [example_dataset ''A'' [''a:b''] [], example_dataset ''B'' [''a''] []])) [] =
    Inr (filter (affected ''scene'' ''a'')
      (datasets (FilterManager [example_dataset ''A'' [''a:b''] [], example_dataset ''B'' [''a''] []])))"
    using T by blast
  then show ?thesis using 2 4 5 7 by simp
qed

text \<open>
  Claim C1. The claim asks that \<^verbatim>\<open>applyFilters\<close> return exactly the records that pass
  the filter of the specification. With the catalog of a dataset \<open>A\<close> whose only scene
  is \<^verbatim>\<open>a:b\<close> and a dataset \<open>B\<close> whose only scene is \<^verbatim>\<open>a\<close>, and the selection of the
  scene \<^verbatim>\<open>a:b\<close>, the specification lets \<open>A\<close> pass and not \<open>B\<close>; \<^verbatim>\<open>applyFilters\<close>
  returns \<open>B\<close> and not \<open>A\<close>.
\<close>

theorem applyFilters_colon_value:
  "selection_ids [(''scene'', ''a:b'')] =
     selectedFilters (toggleFilterSelection ''scene'' ''a:b''
       (FilterManager [example_dataset ''A'' [''a:b''] [], example_dataset ''B'' [''a''] []])) \<and>
   applyFilters
     (toggleFilterSelection ''scene'' ''a:b''
       (FilterManager [example_dataset ''A'' [''a:b''] [], example_dataset ''B'' [''a''] []])) [] =
     Inr [example_dataset ''B'' [''a''] []] \<and>
   filter (passes [(''scene'', ''a:b'')] [])
     [example_dataset ''A'' [''a:b''] [], example_dataset ''B'' [''a''] []] =
     [example_dataset ''A'' [''a:b''] []]"
  by code_simp

text \<open>
  Claim C2. The claim asks that \<^verbatim>\<open>calculateAffectedCount\<close> for a facet and a value be
  the number of records \<^verbatim>\<open>applyFilters\<close> returns for the selection of that value alone.
  For the scene \<^verbatim>\<open>a:b\<close> and a catalog of one dataset with that scene the count is 1,
  and \<^verbatim>\<open>applyFilters\<close> returns no record.
\<close>

theorem calculateAffectedCount_colon_value:
  "calculateAffectedCount (FilterManager [example_dataset ''A'' [''a:b''] []]) ''scene'' ''a:b'' = 1 \<and>
   applyFilters
     ((FilterManager [example_dataset ''A'' [''a:b''] []])\<lparr>selectedFilters := [filterId ''scene'' ''a:b'']\<rparr>)
     [] = Inr []"
  by code_simp


section \<open>Hierarchy tree\<close>

subsection \<open>Insertion and the paths of the tree\<close>

lemma addLevels_Nil: "addLevels (l # ls) [] = [(l, Node (addLevels ls []) (ls = []))]"
  by simp

lemma addLevels_Cons:
  "addLevels (l # ls) ((k, n) # rest) =
     (if k = l then (k, Node (addLevels ls (children n)) (isLeaf n)) # rest
      else (k, n) # addLevels (l # ls) rest)"
  by (simp split: option.split)

lemma count_childless: "countHierarchyItems m = length (childless_paths m)"
  by (induction m rule: countHierarchyItems.induct) auto

lemma keys_addLevels: "fst ` set (addLevels (l # ls) m) = insert l (fst ` set m)"
proof (induction m)
  case Nil
  show ?case by simp
next
  case (Cons a m)
  obtain k n where a: "a = (k, n)" by (cases a)
  show ?case using Cons unfolding a addLevels_Cons by auto
qed

lemma distinct_labels_addLevels: "distinct_labels m \<Longrightarrow> distinct_labels (addLevels p m)"
proof (induction p arbitrary: m)
  case Nil
  then show ?case by simp
next
  case (Cons l ls)
  from Cons.prems show ?case
  proof (induction m)
    case Nil
    have "distinct_labels (addLevels ls [])" using Cons.IH[of "[]"] by simp
    then show ?case unfolding addLevels_Nil by simp
  next
    case (Cons a m)
    obtain k cs lf where a: "a = (k, Node cs lf)"
      by (metis surj_pair node.exhaust)
    show ?case
    proof (cases "k = l")
      case True
      then show ?thesis using Cons.prems \<open>\<And>m. distinct_labels m \<Longrightarrow> distinct_labels (addLevels ls m)\<close>[of cs]
        unfolding a addLevels_Cons by simp
    next
      case False
      then show ?thesis using Cons.prems Cons.IH
        unfolding a addLevels_Cons by (simp add: keys_addLevels del: addLevels.simps)
    qed
  qed
qed

lemma all_paths_addLevels:
  "set (all_paths (addLevels p m)) = set (all_paths m) \<union> {q. q \<noteq> [] \<and> prefix q p}"
proof (induction p arbitrary: m)
  case Nil
  then show ?case by auto
next
  case (Cons l ls)
  have pre: "{q. q \<noteq> [] \<and> prefix q (l # ls)} = insert [l] ((#) l ` {q. q \<noteq> [] \<and> prefix q ls})"
    by (auto simp: prefix_Cons image_iff)
  show ?case
  proof (induction m)
    case Nil
    show ?case unfolding addLevels_Nil pre using Cons.IH[of "[]"] by simp
  next
    case (Cons a m)
    obtain k cs lf where a: "a = (k, Node cs lf)"
      by (metis surj_pair node.exhaust)
    show ?case
    proof (cases "k = l")
      case True
      then show ?thesis using \<open>\<And>m. set (all_paths (addLevels ls m)) = set (all_paths m) \<union> {q. q \<noteq> [] \<and> prefix q ls}\<close>[of cs]
        unfolding a addLevels_Cons pre by (auto simp del: addLevels.simps)
    next
      case False
      then show ?thesis using Cons.IH
        unfolding a addLevels_Cons pre by (auto simp del: addLevels.simps)
    qed
  qed
qed

lemma all_paths_heads: "q \<in> set (all_paths m) \<Longrightarrow> q \<noteq> [] \<and> hd q \<in> fst ` set m"
  by (induction m arbitrary: q rule: all_paths.induct) auto

lemma all_paths_empty: "all_paths m = [] \<longleftrightarrow> m = []"
  by (cases m rule: all_paths.cases) auto

lemma distinct_labels_addToHierarchy:
  "distinct_labels m \<Longrightarrow> distinct_labels (addToHierarchy m p)"
  by (simp add: addToHierarchy_def distinct_labels_addLevels)

lemma all_paths_addToHierarchy:
  "set (all_paths (addToHierarchy m p)) = set (all_paths m) \<union> {q. q \<noteq> [] \<and> prefix q p}"
  by (auto simp: addToHierarchy_def all_paths_addLevels)

lemma distinct_labels_fold:
  "distinct_labels m \<Longrightarrow> distinct_labels (fold (\<lambda>p m. addToHierarchy m p) ps m)"
  by (induction ps arbitrary: m) (simp_all add: distinct_labels_addToHierarchy)

lemma all_paths_fold:
  "set (all_paths (fold (\<lambda>p m. addToHierarchy m p) ps m)) =
     set (all_paths m) \<union> {q. q \<noteq> [] \<and> (\<exists>p \<in> set ps. prefix q p)}"
  by (induction ps arbitrary: m) (auto simp: all_paths_addToHierarchy)


lemma childless_paths_maximal:
  "distinct_labels m \<Longrightarrow>
   q \<in> set (childless_paths m) \<longleftrightarrow>
     q \<in> set (all_paths m) \<and> (\<forall>r \<in> set (all_paths m). \<not> strict_prefix q r)"
proof (induction m arbitrary: q rule: all_paths.induct)
  case 1
  then show ?case by simp
next
  case (2 label cs lf rest)
  have dcs: "distinct_labels cs" and drest: "distinct_labels rest"
    and fresh: "label \<notin> fst ` set rest"
    using "2.prems" by simp_all
  have rest_head: "r \<noteq> [] \<and> hd r \<noteq> label" if "r \<in> set (all_paths rest)" for r
    using all_paths_heads[OF that] fresh by metis
  have rest_sp: "\<not> strict_prefix (label # x) r" if "r \<in> set (all_paths rest)" for r x
    using rest_head[OF that] by (cases r) auto
  have rest_mem: "label # x \<notin> set (all_paths rest)" for x
    using rest_head[of "label # x"] by auto
  have rest_cl: "label # x \<notin> set (childless_paths rest)" for x
    using "2.IH"(2)[OF drest, of "label # x"] rest_mem by simp
  note IHcs = "2.IH"(1)[OF dcs]
  note IHrest = "2.IH"(2)[OF drest]
  show ?case
  proof (cases q)
    case Nil
    have "[] \<notin> set (all_paths ((label, Node cs lf) # rest))"
      using all_paths_heads by blast
    moreover have "[] \<notin> set (childless_paths rest)"
      using IHrest[of "[]"] all_paths_heads by blast
    ultimately show ?thesis using Nil by auto
  next
    case (Cons a q')
    show ?thesis
    proof (cases "a = label")
      case False
      have "q \<in> set (childless_paths ((label, Node cs lf) # rest)) \<longleftrightarrow>
          q \<in> set (childless_paths rest)"
        using Cons False by auto
      moreover have "q \<in> set (all_paths ((label, Node cs lf) # rest)) \<longleftrightarrow>
          q \<in> set (all_paths rest)"
        using Cons False by auto
      moreover have "(\<forall>r \<in> set (all_paths ((label, Node cs lf) # rest)). \<not> strict_prefix q r)
          \<longleftrightarrow> (\<forall>r \<in> set (all_paths rest). \<not> strict_prefix q r)"
        using Cons False by auto
      ultimately show ?thesis using IHrest[of q] by simp
    next
      case True
      then have q: "q = label # q'" using Cons by simp
      have up: "(\<forall>r \<in> set (all_paths ((label, Node cs lf) # rest)). \<not> strict_prefix q r)
          \<longleftrightarrow> (\<forall>r \<in> set (all_paths cs). \<not> strict_prefix q' r)"
        using q rest_sp by (simp add: ball_Un)
      have mem: "q \<in> set (all_paths ((label, Node cs lf) # rest)) \<longleftrightarrow>
          q' = [] \<or> q' \<in> set (all_paths cs)"
        using q rest_mem by auto
      show ?thesis
      proof (cases "cs = []")
        case True
        then show ?thesis using q rest_cl mem up by auto
      next
        case False
        then obtain r0 where r0: "r0 \<in> set (all_paths cs)"
          using all_paths_empty[of cs] by (cases "all_paths cs") auto
        have r0ne: "r0 \<noteq> []" using all_paths_heads[OF r0] by simp
        have cl: "q \<in> set (childless_paths ((label, Node cs lf) # rest)) \<longleftrightarrow>
            q' \<in> set (childless_paths cs)"
          using q False rest_cl by auto
        show ?thesis
        proof (cases "q' = []")
          case True
          have "strict_prefix q' r0" using True r0ne by (cases r0) auto
          moreover have "[] \<notin> set (childless_paths cs)"
            using IHcs[of "[]"] all_paths_heads by blast
          ultimately show ?thesis using cl up r0 True by auto
        next
          case False
          then show ?thesis using cl up mem IHcs[of q'] by auto
        qed
      qed
    qed
  qed
qed

lemma distinct_childless_paths: "distinct_labels m \<Longrightarrow> distinct (childless_paths m)"
proof (induction m rule: all_paths.induct)
  case 1
  then show ?case by simp
next
  case (2 label cs lf rest)
  have fresh: "label \<notin> fst ` set rest" using "2.prems" by simp
  have rest_cl: "label # x \<notin> set (childless_paths rest)" for x
  proof
    assume "label # x \<in> set (childless_paths rest)"
    then have "label # x \<in> set (all_paths rest)"
      using childless_paths_maximal[of rest "label # x"] "2.prems" by simp
    then show False using all_paths_heads[of "label # x" rest] fresh by simp
  qed
  show ?case using 2 rest_cl by (auto simp: distinct_map)
qed

lemma maximal_of_prefix_closure:
  "{q \<in> {q. q \<noteq> [] \<and> (\<exists>p \<in> S. prefix q p)}.
      \<forall>r \<in> {q. q \<noteq> [] \<and> (\<exists>p \<in> S. prefix q p)}. \<not> strict_prefix q r} =
   {p \<in> S. p \<noteq> [] \<and> (\<forall>q \<in> S. \<not> strict_prefix p q)}"
  (is "?L = ?R")
proof (intro equalityI subsetI)
  fix q assume "q \<in> ?L"
  then have qne: "q \<noteq> []" and ex: "\<exists>p \<in> S. prefix q p"
    and mx: "\<And>r. r \<noteq> [] \<Longrightarrow> \<exists>p \<in> S. prefix r p \<Longrightarrow> \<not> strict_prefix q r"
    by auto
  from ex obtain p where p: "p \<in> S" "prefix q p" by blast
  have pne: "p \<noteq> []" using p qne by auto
  have "\<not> strict_prefix q p" using mx[OF pne] p(1) by auto
  then have qp: "q = p" using p(2) by (simp add: strict_prefix_def)
  have "\<not> strict_prefix q r" if "r \<in> S" for r
  proof
    assume sp: "strict_prefix q r"
    then have "r \<noteq> []" by auto
    then show False using mx[of r] that sp by auto
  qed
  then show "q \<in> ?R" using qp p(1) qne by auto
next
  fix p assume "p \<in> ?R"
  then have pS: "p \<in> S" and pne: "p \<noteq> []" and mx: "\<And>q. q \<in> S \<Longrightarrow> \<not> strict_prefix p q"
    by auto
  have "\<not> strict_prefix p r" if "\<exists>p' \<in> S. prefix r p'" for r
  proof
    assume sp: "strict_prefix p r"
    from that obtain p' where p': "p' \<in> S" "prefix r p'" by blast
    have "strict_prefix p p'" using sp p'(2) by (rule prefix_order.less_le_trans)
    then show False using mx[OF p'(1)] by simp
  qed
  then show "p \<in> ?L" using pS pne by auto
qed

subsection \<open>Counting\<close>

text \<open>
  Claim C5, as amended. Whatever paths are inserted into an empty hierarchy, in whatever
  order and however often, \<^verbatim>\<open>countHierarchyItems\<close> of the result is the number of
  distinct inserted paths that are not empty and not a proper prefix of another
  inserted path.
\<close>

theorem countHierarchyItems_maximal_paths:
  "countHierarchyItems (insertPaths ps []) =
     card {p \<in> set ps. p \<noteq> [] \<and> (\<forall>q \<in> set ps. \<not> strict_prefix p q)}"
proof -
  let ?m = "fold (\<lambda>p m. addToHierarchy m p) ps []"
  have d: "distinct_labels ?m" by (rule distinct_labels_fold) simp
  have ap: "set (all_paths ?m) = {q. q \<noteq> [] \<and> (\<exists>p \<in> set ps. prefix q p)}"
    by (simp add: all_paths_fold)
  have "set (childless_paths ?m) =
      {q \<in> set (all_paths ?m). \<forall>r \<in> set (all_paths ?m). \<not> strict_prefix q r}"
    using childless_paths_maximal[OF d] by blast
  also have "\<dots> = {p \<in> set ps. p \<noteq> [] \<and> (\<forall>q \<in> set ps. \<not> strict_prefix p q)}"
    unfolding ap by (rule maximal_of_prefix_closure)
  finally have s: "set (childless_paths ?m) =
      {p \<in> set ps. p \<noteq> [] \<and> (\<forall>q \<in> set ps. \<not> strict_prefix p q)}" .
  have "countHierarchyItems ?m = length (childless_paths ?m)" by (rule count_childless)
  also have "\<dots> = card (set (childless_paths ?m))"
    using distinct_childless_paths[OF d] by (simp add: distinct_card)
  finally show ?thesis using s by (simp add: insertPaths_def)
qed

theorem countHierarchyItems_maximal_paths_witness:
  "countHierarchyItems (insertPaths
      [[''tool''], [''tool'', ''hammer''], [''tool'', ''saw''], [''tool'', ''hammer'']] []) = 2 \<and>
   card {p \<in> set [[''tool''], [''tool'', ''hammer''], [''tool'', ''saw''], [''tool'', ''hammer'']].
           p \<noteq> [] \<and>
           (\<forall>q \<in> set [[''tool''], [''tool'', ''hammer''], [''tool'', ''saw''], [''tool'', ''hammer'']].
              \<not> strict_prefix p q)} = 2"
proof -
  have c: "countHierarchyItems (insertPaths
      [[''tool''], [''tool'', ''hammer''], [''tool'', ''saw''], [''tool'', ''hammer'']] []) = 2"
    by code_simp
  show ?thesis
    using countHierarchyItems_maximal_paths[of
        "[[''tool''], [''tool'', ''hammer''], [''tool'', ''saw''], [''tool'', ''hammer'']]"] c
    by simp
qed

text \<open>The claim as stated counts every distinct inserted path; it fails when one
  inserted path is a proper prefix of another.\<close>

theorem countHierarchyItems_prefix_counterexample:
  "[] \<notin> set [[''tool''], [''tool'', ''hammer'']] \<and>
   countHierarchyItems (insertPaths [[''tool''], [''tool'', ''hammer'']] []) \<noteq>
     card (set [[''tool''], [''tool'', ''hammer'']])"
  by code_simp

subsection \<open>The leaf flag\<close>

text \<open>
  What the flag is after a sequence of insertions into the empty hierarchy: the node at
  a path \<open>q\<close> is marked exactly when the first inserted path that runs through \<open>q\<close>
  ends there. When no inserted path is a proper prefix of another, this is the case
  exactly when \<open>q\<close> is one of the inserted paths.
\<close>

lemma node_flags_paths: "all_paths m = map fst (node_flags m)"
  by (induction m rule: node_flags.induct) (simp_all add: comp_def case_prod_unfold)

lemma node_flags_Cons_iff:
  "(q, b) \<in> set (node_flags ((k, Node cs lf) # rest)) \<longleftrightarrow>
     (q = [k] \<and> b = lf) \<or> (\<exists>q'. q = k # q' \<and> (q', b) \<in> set (node_flags cs)) \<or>
     (q, b) \<in> set (node_flags rest)"
  by (auto simp: image_iff)

lemma all_paths_Cons_iff:
  "q \<in> set (all_paths ((k, Node cs lf) # rest)) \<longleftrightarrow>
     q = [k] \<or> (\<exists>q'. q = k # q' \<and> q' \<in> set (all_paths cs)) \<or> q \<in> set (all_paths rest)"
  by (auto simp: image_iff)

lemma node_flags_nonempty: "(q, b) \<in> set (node_flags m) \<Longrightarrow> q \<in> set (all_paths m)"
  using node_flags_paths[of m] by (metis image_eqI fst_conv set_map)

lemma node_flags_addLevels:
  "distinct_labels m \<Longrightarrow>
   (q, b) \<in> set (node_flags (addLevels p m)) \<longleftrightarrow>
     (q, b) \<in> set (node_flags m) \<or>
     (q \<noteq> [] \<and> prefix q p \<and> q \<notin> set (all_paths m) \<and> b = (q = p))"
proof (induction p arbitrary: m q b)
  case Nil
  then show ?case by auto
next
  case (Cons l ls)
  note outer = Cons.IH
  from Cons.prems show ?case
  proof (induction m)
    case Nil
    have ih: "(q', b) \<in> set (node_flags (addLevels ls [])) \<longleftrightarrow>
        q' \<noteq> [] \<and> prefix q' ls \<and> b = (q' = ls)" for q'
      using outer[of "[]" q' b] by simp
    show ?case
      unfolding addLevels_Nil node_flags_Cons_iff
      by (cases q) (auto simp: prefix_Cons ih simp del: addLevels.simps)
  next
    case (Cons a m)
    obtain k cs lf where a: "a = (k, Node cs lf)"
      by (metis surj_pair node.exhaust)
    have dcs: "distinct_labels cs" and dm: "distinct_labels m" and fresh: "k \<notin> fst ` set m"
      using Cons.prems a by simp_all
    have nok: "k # x \<notin> set (all_paths m)" for x
      using all_paths_heads[of "k # x" m] fresh by auto
    have nokf: "(k # x, b) \<notin> set (node_flags m)" for x
      using node_flags_nonempty[of "k # x" b m] nok by blast
    show ?case
    proof (cases "k = l")
      case True
      have ih: "(q', b) \<in> set (node_flags (addLevels ls cs)) \<longleftrightarrow>
          (q', b) \<in> set (node_flags cs) \<or>
          (q' \<noteq> [] \<and> prefix q' ls \<and> q' \<notin> set (all_paths cs) \<and> b = (q' = ls))" for q'
        by (rule outer[OF dcs])
      have e: "addLevels (l # ls) ((k, Node cs lf) # m) = (k, Node (addLevels ls cs) lf) # m"
        unfolding addLevels_Cons using True by simp
      show ?thesis
        unfolding a e node_flags_Cons_iff all_paths_Cons_iff
        using True nok nokf by (cases q) (auto simp: prefix_Cons ih simp del: addLevels.simps)
    next
      case False
      have ih: "(q, b) \<in> set (node_flags (addLevels (l # ls) m)) \<longleftrightarrow>
          (q, b) \<in> set (node_flags m) \<or>
          (q \<noteq> [] \<and> prefix q (l # ls) \<and> q \<notin> set (all_paths m) \<and> b = (q = l # ls))"
        by (rule Cons.IH[OF dm])
      have e: "addLevels (l # ls) ((k, Node cs lf) # m) = (k, Node cs lf) # addLevels (l # ls) m"
        unfolding addLevels_Cons using False by simp
      show ?thesis
        unfolding a e node_flags_Cons_iff all_paths_Cons_iff ih
        using False by (cases q) (auto simp: prefix_Cons simp del: addLevels.simps)
    qed
  qed
qed

lemma node_flags_addToHierarchy:
  "distinct_labels m \<Longrightarrow>
   (q, b) \<in> set (node_flags (addToHierarchy m p)) \<longleftrightarrow>
     (q, b) \<in> set (node_flags m) \<or>
     (q \<noteq> [] \<and> prefix q p \<and> q \<notin> set (all_paths m) \<and> b = (q = p))"
  by (auto simp: addToHierarchy_def node_flags_addLevels)

lemma node_flags_fold:
  "distinct_labels m \<Longrightarrow>
   (q, b) \<in> set (node_flags (fold (\<lambda>p m. addToHierarchy m p) ps m)) \<longleftrightarrow>
     (q, b) \<in> set (node_flags m) \<or>
     (q \<noteq> [] \<and> q \<notin> set (all_paths m) \<and> (\<exists>p \<in> set ps. prefix q p) \<and>
      b = (find (prefix q) ps = Some q))"
proof (induction ps arbitrary: m)
  case Nil
  then show ?case by simp
next
  case (Cons p ps)
  have d: "distinct_labels (addToHierarchy m p)"
    by (rule distinct_labels_addToHierarchy[OF Cons.prems])
  show ?case
  proof (cases "q \<noteq> [] \<and> prefix q p \<and> q \<notin> set (all_paths m)")
    case True
    then show ?thesis
      using Cons.IH[OF d] node_flags_addToHierarchy[OF Cons.prems, of q b p]
        all_paths_addToHierarchy[of m p]
      by auto
  next
    case False
    have "(q, b) \<in> set (node_flags m) \<Longrightarrow> q \<in> set (all_paths m)"
      by (rule node_flags_nonempty)
    then show ?thesis
      using False Cons.IH[OF d] node_flags_addToHierarchy[OF Cons.prems, of q b p]
        all_paths_addToHierarchy[of m p]
      by auto
  qed
qed

lemma descend_Nil: "descend [] q = None"
  by (induction q rule: induct_list012) simp_all

lemma descend_Cons:
  "descend ((k, n) # rest) (l # ls) =
     (if l = k then (if ls = [] then Some n else descend (children n) ls)
      else descend rest (l # ls))"
  by (cases ls) (auto split: option.splits)

lemma descend_node_flags:
  "distinct_labels m \<Longrightarrow>
   (q, b) \<in> set (node_flags m) \<longleftrightarrow> (\<exists>n. descend m q = Some n \<and> isLeaf n = b)"
proof (induction m arbitrary: q rule: node_flags.induct)
  case 1
  then show ?case by (simp add: descend_Nil)
next
  case (2 label cs lf rest)
  have dcs: "distinct_labels cs" and drest: "distinct_labels rest"
    and fresh: "label \<notin> fst ` set rest"
    using "2.prems" by simp_all
  have nokf: "(label # x, b) \<notin> set (node_flags rest)" for x
    using node_flags_nonempty[of "label # x" b rest] all_paths_heads[of "label # x" rest] fresh
    by auto
  have nil: "([], b) \<notin> set (node_flags cs)"
    using node_flags_nonempty[of "[]" b cs] all_paths_heads[of "[]" cs] by auto
  show ?case
  proof (cases q)
    case Nil
    have "([], b) \<notin> set (node_flags rest)"
      using node_flags_nonempty[of "[]" b rest] all_paths_heads[of "[]" rest] by auto
    then show ?thesis using Nil by (simp add: node_flags_Cons_iff del: node_flags.simps)
  next
    case (Cons l ls)
    show ?thesis
      unfolding Cons node_flags_Cons_iff descend_Cons
      using "2.IH"(1)[OF dcs, of ls] "2.IH"(2)[OF drest, of "l # ls"] nokf nil
      by auto
  qed
qed

lemma isLeaf_inserted:
  "(\<exists>n. descend (fold (\<lambda>p m. addToHierarchy m p) ps []) q = Some n \<and> isLeaf n = b) \<longleftrightarrow>
     q \<noteq> [] \<and> (\<exists>p \<in> set ps. prefix q p) \<and> b = (find (prefix q) ps = Some q)"
proof -
  have d: "distinct_labels (fold (\<lambda>p m. addToHierarchy m p) ps [])"
    by (rule distinct_labels_fold) simp
  show ?thesis
    using descend_node_flags[OF d, of q b] node_flags_fold[of "[]" q b ps] by simp
qed

lemma find_prefix_no_proper_prefix:
  assumes "\<forall>p \<in> set ps. \<forall>p' \<in> set ps. \<not> strict_prefix p p'"
  shows "find (prefix q) ps = Some q \<longleftrightarrow> q \<in> set ps"
proof
  assume "find (prefix q) ps = Some q"
  then show "q \<in> set ps" by (auto simp: find_Some_iff)
next
  assume q: "q \<in> set ps"
  then obtain p where p: "find (prefix q) ps = Some p"
    by (cases "find (prefix q) ps") (auto simp: find_None_iff)
  then have "p \<in> set ps" "prefix q p" by (auto simp: find_Some_iff)
  then have "p = q" using assms q by (auto simp: strict_prefix_def)
  then show "find (prefix q) ps = Some q" using p by simp
qed

lemma isLeaf_iff_terminal:
  assumes "\<forall>p \<in> set ps. \<forall>p' \<in> set ps. \<not> strict_prefix p p'"
    and "descend (fold (\<lambda>p m. addToHierarchy m p) ps []) q = Some n"
  shows "isLeaf n \<longleftrightarrow> q \<in> set ps"
  using isLeaf_inserted[of ps q "isLeaf n"] assms(2) find_prefix_no_proper_prefix[OF assms(1), of q]
  by auto

text \<open>
  Claim C3. The claim asks that a node be marked as a leaf exactly when some inserted
  path ends at it, also when that path is inserted after a longer one. After inserting
  \<^verbatim>\<open>tool > hammer\<close> and then \<^verbatim>\<open>tool\<close>, the node \<^verbatim>\<open>tool\<close> is not marked; in the other
  order it is.
\<close>

theorem isLeaf_not_updated:
  "insertPaths [[''tool'', ''hammer''], [''tool'']] [] =
     [(''tool'', Node [(''hammer'', Node [] True)] False)] \<and>
   map_option isLeaf
     (descend (insertPaths [[''tool'', ''hammer''], [''tool'']] []) [''tool'']) =
     Some False \<and>
   map_option isLeaf
     (descend (insertPaths [[''tool''], [''tool'', ''hammer'']] []) [''tool'']) =
     Some True"
  by code_simp

subsection \<open>Finding a node by its path\<close>

text \<open>
  \<^verbatim>\<open>findHierarchyNode\<close> is the descent through the parts of the path when the last
  part does not occur earlier in the path, and \<^verbatim>\<open>null\<close> when it does.
\<close>

lemma indexOf_nonneg: "x \<in> set xs \<Longrightarrow> 0 \<le> indexOf xs x"
  by (induction xs) (auto simp: Let_def)

lemma indexOf_last_iff:
  assumes "x \<in> set xs"
  shows "indexOf xs x = int (length xs) - 1 \<longleftrightarrow> x = last xs \<and> x \<notin> set (butlast xs)"
  using assms
proof (induction xs)
  case Nil
  then show ?case by simp
next
  case (Cons y ys)
  show ?case
  proof (cases "y = x")
    case True
    then show ?thesis by (cases ys) auto
  next
    case False
    then have mem: "x \<in> set ys" using Cons.prems by simp
    then have ne: "ys \<noteq> []" by auto
    have nn: "0 \<le> indexOf ys x" by (rule indexOf_nonneg[OF mem])
    have e: "indexOf (y # ys) x = indexOf ys x + 1" using False nn by (simp add: Let_def)
    have "indexOf (y # ys) x = int (length (y # ys)) - 1 \<longleftrightarrow>
        indexOf ys x = int (length ys) - 1" unfolding e by auto
    also have "\<dots> \<longleftrightarrow> x = last ys \<and> x \<notin> set (butlast ys)" by (rule Cons.IH[OF mem])
    also have "\<dots> \<longleftrightarrow> x = last (y # ys) \<and> x \<notin> set (butlast (y # ys))"
      using False ne by auto
    finally show ?thesis .
  qed
qed

lemma findLoop_descend:
  assumes "parts = pre @ rest" and "last parts \<notin> set (butlast parts)"
  shows "findLoop parts rest current = descend current rest"
  using assms
proof (induction rest arbitrary: pre current)
  case Nil
  then show ?case by simp
next
  case (Cons part rest)
  have mem: "part \<in> set parts" using Cons.prems(1) by simp
  have idx: "indexOf parts part = int (length parts) - 1 \<longleftrightarrow> rest = []"
  proof
    assume "indexOf parts part = int (length parts) - 1"
    then have "part = last parts" "part \<notin> set (butlast parts)"
      using indexOf_last_iff[OF mem] by auto
    then show "rest = []" using Cons.prems(1)
      by (cases rest rule: rev_cases) (auto simp: butlast_append)
  next
    assume "rest = []"
    then have "part = last parts" using Cons.prems(1) by simp
    then show "indexOf parts part = int (length parts) - 1"
      using indexOf_last_iff[OF mem] Cons.prems(2) by simp
  qed
  show ?case
  proof (cases "map_of current part")
    case None
    then show ?thesis by (cases rest) simp_all
  next
    case (Some node)
    show ?thesis
    proof (cases "rest = []")
      case True
      then show ?thesis using Some idx by simp
    next
      case False
      have "findLoop parts rest (children node) = descend (children node) rest"
        using Cons.IH[of "pre @ [part]" "children node"] Cons.prems by simp
      then show ?thesis using Some idx False by (cases rest) simp_all
    qed
  qed
qed

lemma findLoop_repeated:
  assumes "parts = pre @ rest" and "parts \<noteq> []" and "last parts \<in> set (butlast parts)"
  shows "findLoop parts rest current = None"
  using assms
proof (induction rest arbitrary: pre current)
  case Nil
  then show ?case by simp
next
  case (Cons part rest)
  have mem: "part \<in> set parts" using Cons.prems(1) by simp
  have "indexOf parts part \<noteq> int (length parts) - 1"
    using indexOf_last_iff[OF mem] Cons.prems(3) by auto
  moreover have "findLoop parts rest (children node) = None" for node
    using Cons.IH[of "pre @ [part]" "children node"] Cons.prems by simp
  ultimately show ?case by (simp split: option.split)
qed

lemma split_str_nonempty: "split_str sep s \<noteq> []"
  by (cases s) (auto split: list.split)

lemma findHierarchyNode_descend:
  "findHierarchyNode m p =
     (let parts = split_str CHR ''>'' p in
      if last parts \<in> set (butlast parts) then None else descend m parts)"
  using findLoop_descend[of "split_str CHR ''>'' p" "[]" "split_str CHR ''>'' p" m]
    findLoop_repeated[of "split_str CHR ''>'' p" "[]" "split_str CHR ''>'' p" m]
    split_str_nonempty[of "CHR ''>''" p]
  by (simp add: findHierarchyNode_def Let_def)

text \<open>
  Claim C6. The claim asks that \<^verbatim>\<open>findHierarchyNode\<close> return the node reached by
  descending through the labels of the path, also when a label occurs twice. In the
  hierarchy built from the path \<^verbatim>\<open>a > a\<close> the descent along \<^verbatim>\<open>a>a\<close> reaches a node,
  and \<^verbatim>\<open>findHierarchyNode\<close> returns \<^verbatim>\<open>null\<close>.
\<close>

theorem findHierarchyNode_repeated_label:
  "descend (addToHierarchy [] [''a'', ''a'']) (split_str CHR ''>'' ''a>a'') = Some (Node [] True) \<and>
   findHierarchyNode (addToHierarchy [] [''a'', ''a'']) ''a>a'' = None"
  by code_simp


section \<open>Facet index\<close>

text \<open>
  The flat value sets and the paths of the object tree depend only on which datasets
  the catalog holds, not on their order.
\<close>

lemma set_fold_set_add: "set (fold set_add xs acc) = set acc \<union> set xs"
  by (induction xs arbitrary: acc) (auto simp: set_add_def)

lemma collectDataset_fields:
  "set (scene_values (collectDataset ds g)) = set (scene_values g) \<union> scenes_of ds"
  "set (robot_values (collectDataset ds g)) = set (robot_values g) \<union> robots_of ds"
  "set (end_values (collectDataset ds g)) = set (end_values g) \<union> ends_of ds"
  "set (action_values (collectDataset ds g)) = set (action_values g) \<union> actions_of ds"
  "object_values (collectDataset ds g) =
     fold (\<lambda>p m. addToHierarchy m p) (hierarchies_of ds) (object_values g)"
  by (auto simp: collectDataset_def scenes_of_def robots_of_def ends_of_def actions_of_def
      hierarchies_of_def Let_def set_fold_set_add set_add_def fold_map comp_def
      split: option.splits robot_field.splits)

lemma fold_collectDataset_fields:
  "set (scene_values (fold collectDataset dss g)) = set (scene_values g) \<union> (\<Union>ds \<in> set dss. scenes_of ds)"
  "set (robot_values (fold collectDataset dss g)) = set (robot_values g) \<union> (\<Union>ds \<in> set dss. robots_of ds)"
  "set (end_values (fold collectDataset dss g)) = set (end_values g) \<union> (\<Union>ds \<in> set dss. ends_of ds)"
  "set (action_values (fold collectDataset dss g)) = set (action_values g) \<union> (\<Union>ds \<in> set dss. actions_of ds)"
  "object_values (fold collectDataset dss g) =
     fold (\<lambda>p m. addToHierarchy m p) (concat (map hierarchies_of dss)) (object_values g)"
  by (induction dss arbitrary: g) (auto simp: collectDataset_fields)

lemma collectValues_order_insensitive:
  assumes "set dss' = set dss"
  shows "set (scene_values (collectValues dss')) = set (scene_values (collectValues dss))"
    and "set (robot_values (collectValues dss')) = set (robot_values (collectValues dss))"
    and "set (end_values (collectValues dss')) = set (end_values (collectValues dss))"
    and "set (action_values (collectValues dss')) = set (action_values (collectValues dss))"
    and "set (all_paths (object_values (collectValues dss'))) =
         set (all_paths (object_values (collectValues dss)))"
  using assms
  by (simp_all add: collectValues_def fold_collectDataset_fields all_paths_fold)

lemma node_flags_order_insensitive:
  assumes "set ps' = set ps"
    and "\<forall>p \<in> set ps. \<forall>p' \<in> set ps. \<not> strict_prefix p p'"
  shows "set (node_flags (fold (\<lambda>p m. addToHierarchy m p) ps' [])) =
         set (node_flags (fold (\<lambda>p m. addToHierarchy m p) ps []))"
proof -
  have "(q, b) \<in> set (node_flags (fold (\<lambda>p m. addToHierarchy m p) xs [])) \<longleftrightarrow>
      q \<noteq> [] \<and> (\<exists>p \<in> set ps. prefix q p) \<and> b = (q \<in> set ps)"
    if "set xs = set ps" for xs q b
  proof -
    have np: "\<forall>p \<in> set xs. \<forall>p' \<in> set xs. \<not> strict_prefix p p'"
      using assms(2) that by simp
    show ?thesis
      using node_flags_fold[of "[]" q b xs] find_prefix_no_proper_prefix[OF np, of q] that
      by simp
  qed
  from this[OF assms(1)] this[OF refl] show ?thesis by auto
qed

text \<open>
  Claim C4. The claim asks that \<^verbatim>\<open>buildFilterGroups\<close> give the same facet contents for
  every order of the records. For a dataset with the object hierarchy
  \<^verbatim>\<open>tool > hammer\<close> and one with the hierarchy \<^verbatim>\<open>tool\<close>, the two orders give trees
  that differ in the \<^verbatim>\<open>isLeaf\<close> flag of \<^verbatim>\<open>tool\<close>.
\<close>

theorem buildFilterGroups_order_sensitive:
  "object_tree (buildFilterGroups
     [example_dataset ''A'' [] [[''tool'', ''hammer'']], example_dataset ''B'' [] [[''tool'']]]) =
     [(''tool'', Node [(''hammer'', Node [] True)] False)] \<and>
   object_tree (buildFilterGroups
     [example_dataset ''B'' [] [[''tool'']], example_dataset ''A'' [] [[''tool'', ''hammer'']]]) =
     [(''tool'', Node [(''hammer'', Node [] True)] True)] \<and>
   set (node_flags (object_tree (buildFilterGroups
     [example_dataset ''A'' [] [[''tool'', ''hammer'']], example_dataset ''B'' [] [[''tool'']]]))) \<noteq>
   set (node_flags (object_tree (buildFilterGroups
     [example_dataset ''B'' [] [[''tool'']], example_dataset ''A'' [] [[''tool'', ''hammer'']]])))"
  by code_simp

end
